theory Spec2Isabelle
  imports Main "HOL-Library.Word"
begin

unbundle bit_operations_syntax

section \<open>The key coder of centidb (ext/keycoder.c)\<close>

text \<open>
  A shallow embedding of \<^verbatim>\<open>src/ext/keycoder.c\<close>: the buffer reader and writer, the
  variable-length integer codec, the self-delimiting string codec, the element, tuple and
  batch encoders and decoders, and the offset-table decoder.

  \<^item> \<^verbatim>\<open>uint8_t\<close> is \<open>8 word\<close>, \<^verbatim>\<open>uint64_t\<close>, \<^verbatim>\<open>int64_t\<close> and \<^verbatim>\<open>long\<close> are \<open>64 word\<close>
    (read with \<open>unat\<close> or \<open>sint\<close>), \<^verbatim>\<open>Py_ssize_t\<close> positions and sizes are \<open>int\<close>.
  \<^item> A C function that returns 0 or \<^verbatim>\<open>NULL\<close> returns \<open>None\<close> (encoders) or \<open>Inl\<close> of
    the Python exception (decoders).
  \<^item> What the file takes from outside (the allocator, the UTF-8 codec, the UUID type,
    \<^verbatim>\<open>timegm\<close>, the host's time zone, the contents of a local variable that is read
    before it is assigned) is a field of the record \<open>env\<close>.
  \<^item> The header \<^verbatim>\<open>centidb.h\<close> is not among the sources; its enumeration of kind tags and
    its constants are the fields of the record \<open>header\<close>, a parameter of every function
    that uses one.
\<close>

type_synonym byte = "8 word"
type_synonym u64 = "64 word"

subsection \<open>Python objects\<close>

text \<open>The broken-down wall clock of a \<^verbatim>\<open>datetime\<close>, as \<^verbatim>\<open>write_time\<close> fills \<^verbatim>\<open>struct tm\<close>.\<close>

record tm =
  tm_sec :: int
  tm_min :: int
  tm_hour :: int
  tm_mday :: int
  tm_mon :: int
  tm_year :: int

text \<open>
  A \<^verbatim>\<open>datetime.datetime\<close>: its fields, and what \<^verbatim>\<open>utcoffset()\<close> followed by
  \<^verbatim>\<open>total_seconds()\<close> gives (\<open>None\<close> for a naive datetime).
\<close>

record datetime =
  dt_year :: int
  dt_month :: int
  dt_day :: int
  dt_hour :: int
  dt_minute :: int
  dt_second :: int
  dt_microsecond :: int
  dt_utcoffset :: "int option"

text \<open>
  The objects the coder is handed and hands back, by their exact type (the coder compares
  \<^verbatim>\<open>Py_TYPE(arg)\<close> with the type objects). \<open>PyInt\<close> holds a C \<^verbatim>\<open>long\<close>, \<open>PyLong\<close> an
  unbounded integer, \<open>PyUnicode\<close> its code points, \<open>PyUUID\<close> the result of \<^verbatim>\<open>get_bytes\<close>;
  \<open>PyOther\<close> is an object of any other type, with its type name.
\<close>

datatype pyobj =
    PyNone
  | PyInt u64
  | PyLong int
  | PyBool bool
  | PyString "byte list"
  | PyUnicode "nat list"
  | PyDateTime datetime
  | PyUUID "byte list"
  | PyTuple "pyobj list"
  | PyList "pyobj list"
  | PyOther string

subsection \<open>What the file takes from outside\<close>

record env =
  mem :: "int \<Rightarrow> bool"
  uninit :: "int \<Rightarrow> u64"
  utf8_encode :: "nat list \<Rightarrow> byte list option"
  utf8_decode :: "byte list \<Rightarrow> nat list option"
  uuid_new :: "byte list \<Rightarrow> pyobj option"
  timegm :: "tm \<Rightarrow> u64"
  host_utcoffset :: int

text \<open>
  \<^item> \<open>mem E n\<close>: the allocator grants a string buffer of \<open>n\<close> bytes
    (\<^verbatim>\<open>PyString_FromStringAndSize\<close>, \<^verbatim>\<open>_PyString_Resize\<close>).
  \<^item> \<open>uninit E pos\<close>: the contents of the local \<^verbatim>\<open>v\<close> of \<^verbatim>\<open>read_plain_int\<close> before any
    assignment, in the call entered at reader position \<open>pos\<close>.
  \<^item> \<open>utf8_encode\<close>, \<open>utf8_decode\<close>: \<^verbatim>\<open>PyUnicode_EncodeUTF8\<close> and \<^verbatim>\<open>PyUnicode_DecodeUTF8\<close>
    in strict mode (\<open>None\<close>: the codec raises).
  \<^item> \<open>uuid_new b\<close>: the call \<^verbatim>\<open>uuid.UUID(None, b)\<close> (\<open>None\<close>: it raises).
  \<^item> \<open>timegm\<close>: the C library's \<^verbatim>\<open>timegm\<close>; \<open>host_utcoffset\<close>: \<^verbatim>\<open>utc - local\<close> as
    \<^verbatim>\<open>get_utcoffset_secs\<close> computes it from the host clock for a naive datetime.
\<close>

text \<open>
  The constants of \<^verbatim>\<open>centidb.h\<close>: \<^verbatim>\<open>enum ElementKind\<close> and the timestamp constants.
\<close>

record header =
  KIND_NULL :: byte
  KIND_NEG_INTEGER :: byte
  KIND_INTEGER :: byte
  KIND_BOOL :: byte
  KIND_BLOB :: byte
  KIND_TEXT :: byte
  KIND_UUID :: byte
  KIND_NEG_TIME :: byte
  KIND_TIME :: byte
  KIND_SEP :: byte
  UTCOFFSET_SHIFT :: int
  UTCOFFSET_DIV :: int

subsection \<open>Buffer writer\<close>

text \<open>
  \<^verbatim>\<open>struct writer\<close>: the write position and the string object being filled (\<open>None\<close> is
  \<^verbatim>\<open>NULL\<close>). The bytes of the string object are a list; its length is
  \<^verbatim>\<open>PyString_GET_SIZE\<close>.
\<close>

record writer =
  wtr_pos :: int
  wtr_s :: "byte list option"

text \<open>
  \<^verbatim>\<open>_PyString_Resize\<close> keeps the bytes below the new size; the bytes it adds are not
  initialised, here 0 (every byte below the write position has been stored by the writer
  before it is read).
\<close>

definition PyString_Resize :: "byte list \<Rightarrow> int \<Rightarrow> byte list" where
  "PyString_Resize b n = take (nat n) b @ replicate (nat n - length b) 0"

definition writer_init :: "env \<Rightarrow> int \<Rightarrow> writer option" where
  "writer_init E initial =
     (if 0 \<le> initial \<and> mem E initial
      then Some \<lparr>wtr_pos = 0, wtr_s = Some (replicate (nat initial) 0)\<rparr>
      else None)"

definition writer_grow :: "env \<Rightarrow> writer \<Rightarrow> writer option" where
  "writer_grow E w =
     (case wtr_s w of
        None \<Rightarrow> None
      | Some b \<Rightarrow>
          (let cursize = int (length b);
               newsize = cursize * 2;
               newsize = (if newsize > cursize + 512 then cursize + 512 else newsize)
           in if mem E newsize then Some (w\<lparr>wtr_s := Some (PyString_Resize b newsize)\<rparr>)
              else None))"

text \<open>
  The unchecked store \<^verbatim>\<open>PyString_AS_STRING(wtr->s)[wtr->pos++] = ch\<close>. A store outside the
  string object is a memory fault in C: \<open>None\<close>.
\<close>

definition writer_putchar :: "writer \<Rightarrow> byte \<Rightarrow> writer option" where
  "writer_putchar w ch =
     (case wtr_s w of
        None \<Rightarrow> None
      | Some b \<Rightarrow>
          if 0 \<le> wtr_pos w \<and> wtr_pos w < int (length b)
          then Some (w\<lparr>wtr_s := Some (b[nat (wtr_pos w) := ch]), wtr_pos := wtr_pos w + 1\<rparr>)
          else None)"

text \<open>
  \<^verbatim>\<open>writer_putc\<close> fails on a \<^verbatim>\<open>NULL\<close> string, grows the buffer when the position is
  its last byte, then stores as \<^verbatim>\<open>writer_putchar\<close> does.
\<close>

definition writer_putc :: "env \<Rightarrow> writer \<Rightarrow> byte \<Rightarrow> writer option" where
  "writer_putc E w ch =
     (case wtr_s w of
        None \<Rightarrow> None
      | Some b \<Rightarrow>
          (case (if 1 + wtr_pos w = int (length b) then writer_grow E w else Some w) of
             None \<Rightarrow> None
           | Some w' \<Rightarrow> writer_putchar w' ch))"

text \<open>
  The loop of \<^verbatim>\<open>writer_ensure\<close> runs until the free space after the position (less one
  byte) reaches \<open>size\<close>. On a buffer of size 0 \<^verbatim>\<open>writer_grow\<close> does not grow and the loop
  never ends: \<open>None\<close> stands for "returns 0 or does not return".
\<close>

partial_function (option) writer_ensure :: "env \<Rightarrow> writer \<Rightarrow> int \<Rightarrow> writer option" where
  "writer_ensure E w n =
     (case wtr_s w of
        None \<Rightarrow> None
      | Some b \<Rightarrow>
          if int (length b) - (wtr_pos w + 1) < n
          then (case writer_grow E w of
                  None \<Rightarrow> None
                | Some w' \<Rightarrow> writer_ensure E w' n)
          else Some w)"

text \<open>\<^verbatim>\<open>writer_puts\<close>: reserve, \<^verbatim>\<open>memcpy\<close> at the position, advance.\<close>

definition writer_puts :: "env \<Rightarrow> writer \<Rightarrow> byte list \<Rightarrow> writer option" where
  "writer_puts E w bs =
     (case writer_ensure E w (int (length bs)) of
        None \<Rightarrow> None
      | Some w' \<Rightarrow>
          (case wtr_s w' of
             None \<Rightarrow> None
           | Some b \<Rightarrow>
               if 0 \<le> wtr_pos w' \<and> wtr_pos w' + int (length bs) \<le> int (length b)
               then Some (w'\<lparr>wtr_s := Some (take (nat (wtr_pos w')) b @ bs @
                                              drop (nat (wtr_pos w') + length bs) b),
                               wtr_pos := wtr_pos w' + int (length bs)\<rparr>)
               else None))"

text \<open>\<^verbatim>\<open>writer_fini\<close>: the string truncated to the position.\<close>

definition writer_fini :: "env \<Rightarrow> writer \<Rightarrow> byte list option" where
  "writer_fini E w =
     (case wtr_s w of
        None \<Rightarrow> None
      | Some b \<Rightarrow> if mem E (wtr_pos w) then Some (PyString_Resize b (wtr_pos w)) else None)"

text \<open>The allocated size of the buffer, and the slack the writer keeps after its position.\<close>

definition wtr_size :: "writer \<Rightarrow> int" where
  "wtr_size w = (case wtr_s w of None \<Rightarrow> 0 | Some b \<Rightarrow> int (length b))"

definition writer_slack :: "writer \<Rightarrow> bool" where
  "writer_slack w = (0 \<le> wtr_pos w \<and> wtr_pos w < wtr_size w)"

text \<open>The bytes written so far.\<close>

definition wtr_bytes :: "writer \<Rightarrow> byte list" where
  "wtr_bytes w = (case wtr_s w of None \<Rightarrow> [] | Some b \<Rightarrow> take (nat (wtr_pos w)) b)"

subsection \<open>Variable-length integers: the encoder\<close>

text \<open>A run of consecutive \<^verbatim>\<open>writer_putchar\<close> calls.\<close>

fun writer_putchars :: "writer \<Rightarrow> byte list \<Rightarrow> writer option" where
  "writer_putchars w [] = Some w"
| "writer_putchars w (ch # chs) =
     (case writer_putchar w ch of None \<Rightarrow> None | Some w' \<Rightarrow> writer_putchars w' chs)"

text \<open>
  \<^verbatim>\<open>write_int\<close>: the kind tag when it is not 0, then one of nine forms chosen by the
  range of \<open>v\<close>. \<^verbatim>\<open>(uint8_t) (v >> k)\<close> is \<open>ucast (drop_bit k v)\<close>.
\<close>

definition write_int :: "env \<Rightarrow> writer \<Rightarrow> u64 \<Rightarrow> byte \<Rightarrow> writer option" where
  "write_int E wtr v kind =
     (case (if kind \<noteq> 0 then writer_putc E wtr kind else Some wtr) of
        None \<Rightarrow> None
      | Some wtr \<Rightarrow>
          if v \<le> 240 then writer_putc E wtr (ucast v)
          else if v \<le> 2287 then
            (case writer_ensure E wtr 2 of None \<Rightarrow> None | Some wtr \<Rightarrow>
               (let v = v - 240 in
                writer_putchars wtr [241 + ucast (drop_bit 8 v), ucast (v AND 0xff)]))
          else if v \<le> 67823 then
            (case writer_ensure E wtr 3 of None \<Rightarrow> None | Some wtr \<Rightarrow>
               (let v = v - 2288 in
                writer_putchars wtr [0xf9, ucast (drop_bit 8 v), ucast (v AND 0xff)]))
          else if v \<le> 0xffffff then
            (case writer_ensure E wtr 4 of None \<Rightarrow> None | Some wtr \<Rightarrow>
               writer_putchars wtr
                 [0xfa, ucast (drop_bit 16 v), ucast (drop_bit 8 v), ucast v])
          else if v \<le> 0xffffffff then
            (case writer_ensure E wtr 5 of None \<Rightarrow> None | Some wtr \<Rightarrow>
               writer_putchars wtr
                 [0xfb, ucast (drop_bit 24 v), ucast (drop_bit 16 v), ucast (drop_bit 8 v),
                  ucast v])
          else if v \<le> 0xffffffffff then
            (case writer_ensure E wtr 6 of None \<Rightarrow> None | Some wtr \<Rightarrow>
               writer_putchars wtr
                 [0xfc, ucast (drop_bit 32 v), ucast (drop_bit 24 v), ucast (drop_bit 16 v),
                  ucast (drop_bit 8 v), ucast v])
          else if v \<le> 0xffffffffffff then
            (case writer_ensure E wtr 7 of None \<Rightarrow> None | Some wtr \<Rightarrow>
               writer_putchars wtr
                 [0xfd, ucast (drop_bit 40 v), ucast (drop_bit 32 v), ucast (drop_bit 24 v),
                  ucast (drop_bit 16 v), ucast (drop_bit 8 v), ucast v])
          else if v \<le> 0xffffffffffffff then
            (case writer_ensure E wtr 8 of None \<Rightarrow> None | Some wtr \<Rightarrow>
               writer_putchars wtr
                 [0xfe, ucast (drop_bit 48 v), ucast (drop_bit 40 v), ucast (drop_bit 32 v),
                  ucast (drop_bit 24 v), ucast (drop_bit 16 v), ucast (drop_bit 8 v),
                  ucast v])
          else
            (case writer_ensure E wtr 9 of None \<Rightarrow> None | Some wtr \<Rightarrow>
               writer_putchars wtr
                 [0xff, ucast (drop_bit 56 v), ucast (drop_bit 48 v), ucast (drop_bit 40 v),
                  ucast (drop_bit 32 v), ucast (drop_bit 24 v), ucast (drop_bit 16 v),
                  ucast (drop_bit 8 v), ucast v]))"

text \<open>\<^verbatim>\<open>py_pack_int(prefix, v)\<close>: the prefix, then the integer with no kind tag.\<close>

definition py_pack_int :: "env \<Rightarrow> byte list \<Rightarrow> u64 \<Rightarrow> byte list option" where
  "py_pack_int E prefix v =
     (case writer_init E 9 of None \<Rightarrow> None | Some wtr \<Rightarrow>
        (case writer_puts E wtr prefix of None \<Rightarrow> None | Some wtr \<Rightarrow>
           (case write_int E wtr v 0 of None \<Rightarrow> None | Some wtr \<Rightarrow> writer_fini E wtr)))"

subsection \<open>Self-delimiting strings: the encoder\<close>

text \<open>
  The loop of \<^verbatim>\<open>write_str\<close> over the input bytes, carrying \<open>shift\<close> and \<open>trailer\<close>.
  \<^verbatim>\<open>trailer = (o << (7 - shift))\<close> is stored in a \<^verbatim>\<open>uint8_t\<close>: the shift of an \<open>8 word\<close>.
  A failed \<^verbatim>\<open>writer_putc\<close> leaves the string \<^verbatim>\<open>NULL\<close>, so every later one fails too and
  the function returns 0 whichever return value it drops on the way.
\<close>

fun write_str_loop ::
  "env \<Rightarrow> writer \<Rightarrow> byte list \<Rightarrow> nat \<Rightarrow> byte \<Rightarrow> (writer \<times> nat \<times> byte) option" where
  "write_str_loop E wtr [] shift trailer = Some (wtr, shift, trailer)"
| "write_str_loop E wtr (ob # p) shift trailer =
     (case writer_putc E wtr (0x80 OR trailer OR drop_bit shift ob) of
        None \<Rightarrow> None
      | Some wtr \<Rightarrow>
          if shift < 7 then write_str_loop E wtr p (shift + 1) (push_bit (7 - shift) ob)
          else (case writer_putc E wtr (0x80 OR ob) of
                  None \<Rightarrow> None
                | Some wtr \<Rightarrow> write_str_loop E wtr p 1 0))"

definition write_str :: "env \<Rightarrow> writer \<Rightarrow> byte list \<Rightarrow> byte \<Rightarrow> writer option" where
  "write_str E wtr p kind =
     (case (if kind \<noteq> 0 then writer_putc E wtr kind else Some wtr) of
        None \<Rightarrow> None
      | Some wtr \<Rightarrow>
          (case write_str_loop E wtr p 1 0 of
             None \<Rightarrow> None
           | Some (wtr, shift, trailer) \<Rightarrow>
               if shift > 1 then
                 (case writer_putc E wtr trailer of
                    None \<Rightarrow> None
                  | Some wtr \<Rightarrow> if trailer \<noteq> 0 then writer_putc E wtr 0 else Some wtr)
               else writer_putc E wtr 0))"

subsection \<open>Timestamps: the encoder\<close>

text \<open>C's integer division truncates towards zero.\<close>

definition c_div :: "int \<Rightarrow> int \<Rightarrow> int" where
  "c_div a b = sgn a * sgn b * (\<bar>a\<bar> div \<bar>b\<bar>)"

text \<open>
  \<^verbatim>\<open>get_utcoffset_secs\<close>: for a naive datetime the host's offset in seconds; otherwise
  \<^verbatim>\<open>offset / (15 * 60)\<close>, the offset in quarter hours. (The call of \<^verbatim>\<open>utcoffset\<close> itself
  is taken to succeed.)
\<close>

definition get_utcoffset_secs :: "env \<Rightarrow> datetime \<Rightarrow> int" where
  "get_utcoffset_secs E dt =
     (case dt_utcoffset dt of
        None \<Rightarrow> host_utcoffset E
      | Some offset \<Rightarrow> c_div offset (15 * 60))"

text \<open>
  \<^verbatim>\<open>write_time\<close> returns -1 when \<^verbatim>\<open>get_utcoffset_secs\<close> gave -1, and otherwise what
  \<^verbatim>\<open>write_int\<close> returns: \<open>Some (ret, wtr)\<close> with \<open>ret\<close> the non-zero return value, \<open>None\<close>
  for 0. A failed \<^verbatim>\<open>assert\<close> aborts, and a division by 0 traps: \<open>None\<close> as well.
\<close>

definition write_time :: "header \<Rightarrow> env \<Rightarrow> writer \<Rightarrow> datetime \<Rightarrow> (int \<times> writer) option" where
  "write_time K E wtr dt =
     (let tmv = \<lparr>tm_sec = dt_second dt, tm_min = dt_minute dt, tm_hour = dt_hour dt,
                 tm_mday = dt_day dt, tm_mon = dt_month dt - 1, tm_year = dt_year dt - 1900\<rparr>;
          ts = timegm E tmv;
          offset_secs = get_utcoffset_secs E dt
      in if offset_secs = - 1 then Some (- 1, wtr)
         else if UTCOFFSET_DIV K = 0 then None
         else
           (let offset_bits = UTCOFFSET_SHIFT K + c_div offset_secs (UTCOFFSET_DIV K)
            in if \<not> (offset_bits \<le> 0x7f \<and> offset_bits \<ge> 0) then None
               else
                 (let ts = ts * 1000;
                      ts = ts + word_of_int (dt_microsecond dt div 1000);
                      ts = push_bit 7 ts;
                      ts = ts OR word_of_int offset_bits
                  in case (if ts <s 0 then write_int E wtr (- ts) (KIND_NEG_TIME K)
                           else write_int E wtr ts (KIND_TIME K)) of
                       None \<Rightarrow> None
                     | Some wtr \<Rightarrow> Some (1, wtr))))"

subsection \<open>Elements, tuples and batches: the encoder\<close>

text \<open>
  \<^verbatim>\<open>c_encode_value\<close>, one case per type it tests. \<^verbatim>\<open>PyLong_AsLongLong\<close> raises outside the
  range of \<^verbatim>\<open>int64_t\<close>; an unsupported type raises \<^verbatim>\<open>TypeError\<close>. The callers only test
  the return value against 0, so the -1 of \<^verbatim>\<open>write_time\<close> counts as success.
\<close>

definition write_signed :: "header \<Rightarrow> env \<Rightarrow> writer \<Rightarrow> u64 \<Rightarrow> writer option" where
  "write_signed K E wtr v =
     (if v <s 0 then write_int E wtr (- v) (KIND_NEG_INTEGER K)
      else write_int E wtr v (KIND_INTEGER K))"

fun c_encode_value :: "header \<Rightarrow> env \<Rightarrow> writer \<Rightarrow> pyobj \<Rightarrow> writer option" where
  "c_encode_value K E wtr PyNone = writer_putc E wtr (KIND_NULL K)"
| "c_encode_value K E wtr (PyInt v) = write_signed K E wtr v"
| "c_encode_value K E wtr (PyString b) = write_str E wtr b (KIND_BLOB K)"
| "c_encode_value K E wtr (PyUnicode u) =
     (case utf8_encode E u of
        None \<Rightarrow> None
      | Some utf8 \<Rightarrow> write_str E wtr utf8 (KIND_TEXT K))"
| "c_encode_value K E wtr (PyBool b) =
     (case writer_putc E wtr (KIND_BOOL K) of
        None \<Rightarrow> None
      | Some wtr \<Rightarrow> writer_putc E wtr (if b then 1 else 0))"
| "c_encode_value K E wtr (PyLong i) =
     (if - (2 ^ 63) \<le> i \<and> i < 2 ^ 63 then write_signed K E wtr (word_of_int i) else None)"
| "c_encode_value K E wtr (PyDateTime dt) =
     (case write_time K E wtr dt of None \<Rightarrow> None | Some (ret, wtr) \<Rightarrow> Some wtr)"
| "c_encode_value K E wtr (PyUUID ss) = write_str E wtr ss (KIND_UUID K)"
| "c_encode_value K E wtr (PyTuple xs) = None"
| "c_encode_value K E wtr (PyList xs) = None"
| "c_encode_value K E wtr (PyOther name) = None"

fun c_encode_key :: "header \<Rightarrow> env \<Rightarrow> writer \<Rightarrow> pyobj list \<Rightarrow> writer option" where
  "c_encode_key K E wtr [] = Some wtr"
| "c_encode_key K E wtr (x # xs) =
     (case c_encode_value K E wtr x of
        None \<Rightarrow> None
      | Some wtr \<Rightarrow> c_encode_key K E wtr xs)"

text \<open>One item of \<^verbatim>\<open>packs\<close>: a tuple is encoded as a key, anything else as a value.\<close>

definition encode_item :: "header \<Rightarrow> env \<Rightarrow> writer \<Rightarrow> pyobj \<Rightarrow> writer option" where
  "encode_item K E wtr elem =
     (case elem of
        PyTuple xs \<Rightarrow> c_encode_key K E wtr xs
      | _ \<Rightarrow> c_encode_value K E wtr elem)"

text \<open>The loop of \<^verbatim>\<open>packs\<close> over a list: \<^verbatim>\<open>KIND_SEP\<close> before every item but the first.\<close>

fun packs_loop :: "header \<Rightarrow> env \<Rightarrow> writer \<Rightarrow> nat \<Rightarrow> pyobj list \<Rightarrow> writer option" where
  "packs_loop K E wtr i [] = Some wtr"
| "packs_loop K E wtr i (elem # elems) =
     (case (if i \<noteq> 0 then writer_putc E wtr (KIND_SEP K) else Some wtr) of
        None \<Rightarrow> None
      | Some wtr \<Rightarrow>
          (case encode_item K E wtr elem of
             None \<Rightarrow> None
           | Some wtr \<Rightarrow> packs_loop K E wtr (i + 1) elems))"

text \<open>
  \<^verbatim>\<open>packs(prefix, value)\<close>, also exported as \<^verbatim>\<open>pack\<close>. A prefix that is not a \<^verbatim>\<open>str\<close> raises
  \<^verbatim>\<open>TypeError\<close>.
\<close>

definition packs :: "header \<Rightarrow> env \<Rightarrow> pyobj \<Rightarrow> pyobj \<Rightarrow> byte list option" where
  "packs K E py_prefix tups =
     (case py_prefix of
        PyString prefix \<Rightarrow>
          (case writer_init E 20 of None \<Rightarrow> None | Some wtr \<Rightarrow>
             (case writer_puts E wtr prefix of None \<Rightarrow> None | Some wtr \<Rightarrow>
                (case (case tups of
                         PyList elems \<Rightarrow> packs_loop K E wtr 0 elems
                       | _ \<Rightarrow> encode_item K E wtr tups) of
                   None \<Rightarrow> None
                 | Some wtr \<Rightarrow> writer_fini E wtr)))
      | _ \<Rightarrow> None)"

definition tuplize :: "pyobj \<Rightarrow> pyobj" where
  "tuplize arg = (case arg of PyTuple xs \<Rightarrow> PyTuple xs | _ \<Rightarrow> PyTuple [arg])"

subsection \<open>Buffer reader\<close>

text \<open>The Python exceptions the decoders raise, and the ways they stop without one.\<close>

datatype error =
    ValueError
  | MemoryError
  | UnicodeDecodeError
  | SystemError
  | Abort

text \<open>
  \<open>SystemError\<close>: a function returned \<^verbatim>\<open>NULL\<close> with no exception set, or the interpreter
  refused an internal call. \<open>Abort\<close>: a failed \<^verbatim>\<open>assert\<close>, or a load or store outside an
  object.
\<close>

definition bindE :: "error + 'a \<Rightarrow> ('a \<Rightarrow> error + 'b) \<Rightarrow> error + 'b" where
  "bindE m f = (case m of Inl e \<Rightarrow> Inl e | Inr x \<Rightarrow> f x)"

record reader =
  rdr_p :: "byte list"
  rdr_size :: int
  rdr_pos :: int

definition reader_init :: "byte list \<Rightarrow> int \<Rightarrow> reader" where
  "reader_init p n = \<lparr>rdr_p = p, rdr_size = n, rdr_pos = 0\<rparr>"

text \<open>
  \<^verbatim>\<open>reader_getc\<close> loads \<^verbatim>\<open>rdr->p[rdr->pos]\<close> after checking the position against
  \<^verbatim>\<open>rdr->size\<close>, which every caller sets to the length of the byte string.
\<close>

definition reader_getc :: "reader \<Rightarrow> (byte \<times> reader) option" where
  "reader_getc rdr =
     (if rdr_pos rdr < rdr_size rdr
      then Some (rdr_p rdr ! nat (rdr_pos rdr), rdr\<lparr>rdr_pos := rdr_pos rdr + 1\<rparr>)
      else None)"

definition reader_ensure :: "reader \<Rightarrow> int \<Rightarrow> error + unit" where
  "reader_ensure rdr n = (if rdr_size rdr - rdr_pos rdr < n then Inl ValueError else Inr ())"

text \<open>
  The unchecked \<^verbatim>\<open>reader_getchar\<close>, which returns the byte as a \<^verbatim>\<open>uint64_t\<close>; a load
  outside the byte string is \<open>Abort\<close>.
\<close>

definition reader_getchar :: "reader \<Rightarrow> error + (u64 \<times> reader)" where
  "reader_getchar rdr =
     (if 0 \<le> rdr_pos rdr \<and> nat (rdr_pos rdr) < length (rdr_p rdr)
      then Inr (ucast (rdr_p rdr ! nat (rdr_pos rdr)), rdr\<lparr>rdr_pos := rdr_pos rdr + 1\<rparr>)
      else Inl Abort)"

subsection \<open>Variable-length integers: the decoder\<close>

text \<open>
  \<^verbatim>\<open>read_plain_int\<close> returns 0 with no exception when the input is at its end. Its local
  \<^verbatim>\<open>v\<close> is declared without a value; the branch for a lead byte up to 240 stores the byte
  in \<^verbatim>\<open>*u64\<close> and leaves \<^verbatim>\<open>v\<close> alone, and the statement \<^verbatim>\<open>*u64 = v\<close> after the branches
  then stores \<^verbatim>\<open>v\<close> over it. The result is the pair of \<^verbatim>\<open>*u64\<close> and the reader.
\<close>

definition read_plain_int :: "env \<Rightarrow> reader \<Rightarrow> error + (u64 \<times> reader)" where
  "read_plain_int E rdr0 =
     (case reader_getc rdr0 of
        None \<Rightarrow> Inl SystemError
      | Some (ch, rdr) \<Rightarrow>
          (let v = uninit E (rdr_pos rdr0) in
           if ch \<le> 240 then
             (let u64 = (ucast ch :: u64);
                  u64 = v
              in Inr (u64, rdr))
           else if ch \<le> 248 then
             bindE (reader_ensure rdr 1) (\<lambda>_.
             bindE (reader_getchar rdr) (\<lambda>(a, rdr).
               Inr (240 + 256 * (ucast ch - 241) + a, rdr)))
           else if ch = 249 then
             bindE (reader_ensure rdr 2) (\<lambda>_.
             bindE (reader_getchar rdr) (\<lambda>(a, rdr).
             bindE (reader_getchar rdr) (\<lambda>(b, rdr).
               Inr (2288 + 256 * a + b, rdr))))
           else if ch = 250 then
             bindE (reader_ensure rdr 3) (\<lambda>_.
             bindE (reader_getchar rdr) (\<lambda>(a, rdr).
             bindE (reader_getchar rdr) (\<lambda>(b, rdr).
             bindE (reader_getchar rdr) (\<lambda>(c, rdr).
               Inr (push_bit 16 a OR push_bit 8 b OR c, rdr)))))
           else if ch = 251 then
             bindE (reader_ensure rdr 4) (\<lambda>_.
             bindE (reader_getchar rdr) (\<lambda>(a, rdr).
             bindE (reader_getchar rdr) (\<lambda>(b, rdr).
             bindE (reader_getchar rdr) (\<lambda>(c, rdr).
             bindE (reader_getchar rdr) (\<lambda>(d, rdr).
               Inr (push_bit 24 a OR push_bit 16 b OR push_bit 8 c OR d, rdr))))))
           else if ch = 252 then
             bindE (reader_ensure rdr 5) (\<lambda>_.
             bindE (reader_getchar rdr) (\<lambda>(a, rdr).
             bindE (reader_getchar rdr) (\<lambda>(b, rdr).
             bindE (reader_getchar rdr) (\<lambda>(c, rdr).
             bindE (reader_getchar rdr) (\<lambda>(d, rdr).
             bindE (reader_getchar rdr) (\<lambda>(e, rdr).
               Inr (push_bit 32 a OR push_bit 24 b OR push_bit 16 c OR push_bit 8 d OR e,
                    rdr)))))))
           else if ch = 253 then
             bindE (reader_ensure rdr 6) (\<lambda>_.
             bindE (reader_getchar rdr) (\<lambda>(a, rdr).
             bindE (reader_getchar rdr) (\<lambda>(b, rdr).
             bindE (reader_getchar rdr) (\<lambda>(c, rdr).
             bindE (reader_getchar rdr) (\<lambda>(d, rdr).
             bindE (reader_getchar rdr) (\<lambda>(e, rdr).
             bindE (reader_getchar rdr) (\<lambda>(f, rdr).
               Inr (push_bit 40 a OR push_bit 32 b OR push_bit 24 c OR push_bit 16 d OR
                    push_bit 8 e OR f, rdr))))))))
           else if ch = 254 then
             bindE (reader_ensure rdr 7) (\<lambda>_.
             bindE (reader_getchar rdr) (\<lambda>(a, rdr).
             bindE (reader_getchar rdr) (\<lambda>(b, rdr).
             bindE (reader_getchar rdr) (\<lambda>(c, rdr).
             bindE (reader_getchar rdr) (\<lambda>(d, rdr).
             bindE (reader_getchar rdr) (\<lambda>(e, rdr).
             bindE (reader_getchar rdr) (\<lambda>(f, rdr).
             bindE (reader_getchar rdr) (\<lambda>(g, rdr).
               Inr (push_bit 48 a OR push_bit 40 b OR push_bit 32 c OR push_bit 24 d OR
                    push_bit 16 e OR push_bit 8 f OR g, rdr)))))))))
           else
             bindE (reader_ensure rdr 8) (\<lambda>_.
             bindE (reader_getchar rdr) (\<lambda>(a, rdr).
             bindE (reader_getchar rdr) (\<lambda>(b, rdr).
             bindE (reader_getchar rdr) (\<lambda>(c, rdr).
             bindE (reader_getchar rdr) (\<lambda>(d, rdr).
             bindE (reader_getchar rdr) (\<lambda>(e, rdr).
             bindE (reader_getchar rdr) (\<lambda>(f, rdr).
             bindE (reader_getchar rdr) (\<lambda>(g, rdr).
             bindE (reader_getchar rdr) (\<lambda>(h, rdr).
               Inr (push_bit 56 a OR push_bit 48 b OR push_bit 40 c OR push_bit 32 d OR
                    push_bit 24 e OR push_bit 16 f OR push_bit 8 g OR h, rdr))))))))))))"

text \<open>
  \<^verbatim>\<open>read_int\<close>: \<^verbatim>\<open>PyLong_FromUnsignedLongLong\<close>, negated by \<^verbatim>\<open>PyNumber_Negative\<close> on
  request.
\<close>

definition read_int :: "env \<Rightarrow> reader \<Rightarrow> bool \<Rightarrow> error + (pyobj \<times> reader)" where
  "read_int E rdr negate =
     bindE (read_plain_int E rdr) (\<lambda>(u64, rdr).
       Inr (PyLong (if negate then - uint u64 else uint u64), rdr))"

subsection \<open>Self-delimiting strings: the decoder\<close>

text \<open>
  The loop of \<^verbatim>\<open>read_str\<close>. The writer is \<open>None\<close> once a \<^verbatim>\<open>writer_putc\<close> has failed (its
  string is \<^verbatim>\<open>NULL\<close> from then on). The loop stops on a failed \<^verbatim>\<open>writer_putc\<close>, at the
  end of the input and at a zero byte; after the seventh byte of a group it reads the next
  lead byte, whose \<^verbatim>\<open>reader_getc\<close> result replaces \<^verbatim>\<open>ret\<close>.
\<close>

function read_str_loop ::
  "env \<Rightarrow> reader \<Rightarrow> writer option \<Rightarrow> byte \<Rightarrow> nat \<Rightarrow> reader \<times> writer option" where
  "read_str_loop E rdr wtr lb shift =
     (case reader_getc rdr of
        None \<Rightarrow> (rdr, wtr)
      | Some (cb, rdr1) \<Rightarrow>
          if cb = 0 then (rdr1, wtr)
          else
            (let ch = push_bit shift lb OR drop_bit (7 - shift) (cb AND 0x7f);
                 wtr = (case wtr of None \<Rightarrow> None | Some w \<Rightarrow> writer_putc E w ch)
             in if shift < 7 then
                  (if wtr = None then (rdr1, wtr) else read_str_loop E rdr1 wtr cb (shift + 1))
                else
                  (case reader_getc rdr1 of
                     None \<Rightarrow> (rdr1, wtr)
                   | Some (lb', rdr2) \<Rightarrow>
                       if lb' = 0 then (rdr2, wtr) else read_str_loop E rdr2 wtr lb' 1)))"
  by pat_completeness auto
termination
  by (relation "measure (\<lambda>(E, rdr, wtr, lb, shift). nat (rdr_size rdr - rdr_pos rdr))")
     (auto simp: reader_getc_def split: if_splits option.splits)

definition read_str :: "env \<Rightarrow> reader \<Rightarrow> error + (byte list \<times> reader)" where
  "read_str E rdr =
     (case writer_init E 20 of
        None \<Rightarrow> Inl MemoryError
      | Some wtr \<Rightarrow>
          (case reader_getc rdr of
             None \<Rightarrow> Inl SystemError
           | Some (lb, rdr) \<Rightarrow>
               (case (if lb = 0 then (rdr, Some wtr) else read_str_loop E rdr (Some wtr) lb 1) of
                  (rdr, None) \<Rightarrow> Inl MemoryError
                | (rdr, Some wtr) \<Rightarrow>
                    (case writer_fini E wtr of
                       None \<Rightarrow> Inl MemoryError
                     | Some s \<Rightarrow> Inr (s, rdr)))))"

subsection \<open>Tuples and batches: the decoder\<close>

text \<open>
  The \<^verbatim>\<open>switch\<close> of \<^verbatim>\<open>unpack\<close> on the kind tag: \<open>Inr (Some arg, rdr)\<close> is a decoded
  element, \<open>Inr (None, rdr)\<close> the separator (\<^verbatim>\<open>go = 0\<close>). \<^verbatim>\<open>read_time\<close> is
  \<^verbatim>\<open>assert(0)\<close>.
\<close>

definition read_time :: "reader \<Rightarrow> byte \<Rightarrow> error + (pyobj \<times> reader)" where
  "read_time rdr kind = Inl Abort"

definition unpack_arg ::
  "header \<Rightarrow> env \<Rightarrow> byte \<Rightarrow> reader \<Rightarrow> error + (pyobj option \<times> reader)" where
  "unpack_arg K E ch rdr =
     (if ch = KIND_NULL K then Inr (Some PyNone, rdr)
      else if ch = KIND_INTEGER K then
        bindE (read_int E rdr False) (\<lambda>(arg, rdr). Inr (Some arg, rdr))
      else if ch = KIND_NEG_INTEGER K then
        bindE (read_int E rdr True) (\<lambda>(arg, rdr). Inr (Some arg, rdr))
      else if ch = KIND_BOOL K then
        bindE (read_plain_int E rdr) (\<lambda>(u64, rdr). Inr (Some (PyBool (u64 \<noteq> 0)), rdr))
      else if ch = KIND_BLOB K then
        bindE (read_str E rdr) (\<lambda>(s, rdr). Inr (Some (PyString s), rdr))
      else if ch = KIND_TEXT K then
        bindE (read_str E rdr) (\<lambda>(tmp, rdr).
          case utf8_decode E tmp of
            None \<Rightarrow> Inl UnicodeDecodeError
          | Some u \<Rightarrow> Inr (Some (PyUnicode u), rdr))
      else if ch = KIND_NEG_TIME K \<or> ch = KIND_TIME K then
        bindE (read_time rdr ch) (\<lambda>(tmp, rdr). Inl SystemError)
      else if ch = KIND_UUID K then
        bindE (read_str E rdr) (\<lambda>(tmp, rdr).
          case uuid_new E tmp of
            None \<Rightarrow> Inl ValueError
          | Some u \<Rightarrow> Inr (Some u, rdr))
      else if ch = KIND_SEP K then Inr (None, rdr)
      else Inl ValueError)"

text \<open>A reader after some reads: the same input, not before where it was.\<close>

definition reader_adv :: "reader \<Rightarrow> reader \<Rightarrow> bool" where
  "reader_adv rdr rdr' =
     (rdr_p rdr' = rdr_p rdr \<and> rdr_size rdr' = rdr_size rdr \<and> rdr_pos rdr \<le> rdr_pos rdr')"

lemma reader_adv_refl: "reader_adv rdr rdr"
  by (simp add: reader_adv_def)

lemma reader_adv_trans: "reader_adv a b \<Longrightarrow> reader_adv b c \<Longrightarrow> reader_adv a c"
  by (simp add: reader_adv_def)

lemma reader_getc_adv:
  "reader_getc rdr = Some (ch, rdr') \<Longrightarrow>
   reader_adv rdr rdr' \<and> rdr_pos rdr' = rdr_pos rdr + 1 \<and> rdr_pos rdr < rdr_size rdr"
  by (auto simp: reader_getc_def reader_adv_def split: if_splits option.splits)

lemma reader_getchar_adv:
  "reader_getchar rdr = Inr (a, rdr') \<Longrightarrow> reader_adv rdr rdr'"
  by (auto simp: reader_getchar_def reader_adv_def split: if_splits)

lemma bindE_Inr:
  "bindE m f = Inr y \<Longrightarrow> \<exists>x. m = Inr x \<and> f x = Inr y"
  by (cases m) (auto simp: bindE_def)

lemma bind_getchar_adv:
  assumes "bindE (reader_getchar rdr) (\<lambda>(a, r). f a r) = Inr (y, rdr')"
    and "\<And>a r. f a r = Inr (y, rdr') \<Longrightarrow> reader_adv r rdr'"
  shows "reader_adv rdr rdr'"
proof -
  from assms(1) obtain x where x: "reader_getchar rdr = Inr x" "(\<lambda>(a, r). f a r) x = Inr (y, rdr')"
    by (blast dest: bindE_Inr)
  obtain a r where [simp]: "x = (a, r)" by (cases x)
  from x have "reader_adv rdr r" by (simp add: reader_getchar_adv)
  moreover from x assms(2) have "reader_adv r rdr'" by simp
  ultimately show ?thesis by (rule reader_adv_trans)
qed

lemma bind_ensure_adv:
  assumes "bindE (reader_ensure rdr n) (\<lambda>_. m) = Inr (y, rdr')"
    and "m = Inr (y, rdr') \<Longrightarrow> reader_adv rdr rdr'"
  shows "reader_adv rdr rdr'"
  using assms by (auto simp: bindE_def split: sum.splits)

lemma read_plain_int_adv:
  assumes "read_plain_int E rdr = Inr (v, rdr')"
  shows "reader_adv rdr rdr'"
proof -
  from assms obtain ch r1 where g: "reader_getc rdr = Some (ch, r1)"
    by (auto simp: read_plain_int_def split: option.splits)
  then have a1: "reader_adv rdr r1" by (simp add: reader_getc_adv)
  have "reader_adv r1 rdr'"
    using assms g
    apply (simp add: read_plain_int_def Let_def split: if_splits)
            apply (simp add: reader_adv_refl)
           apply (erule bind_ensure_adv, (erule bind_getchar_adv)+, simp add: reader_adv_refl)+
    done
  with a1 show ?thesis by (rule reader_adv_trans)
qed


declare read_str_loop.simps [simp del]

lemma read_str_loop_adv:
  "read_str_loop E rdr wtr lb shift = (rdr', wtr') \<Longrightarrow> reader_adv rdr rdr'"
proof (induction E rdr wtr lb shift arbitrary: rdr' wtr' rule: read_str_loop.induct)
  case (1 E rdr wtr lb shift)
  show ?case
  proof (cases "reader_getc rdr")
    case None
    with "1.prems" show ?thesis
      by (simp add: read_str_loop.simps [of E rdr] reader_adv_refl)
  next
    case (Some a)
    obtain cb rdr1 where a: "a = (cb, rdr1)" by (cases a)
    from Some a have adv1: "reader_adv rdr rdr1" by (simp add: reader_getc_adv)
    define w1 where "w1 = (case wtr of None \<Rightarrow> None | Some w \<Rightarrow>
      writer_putc E w (push_bit shift lb OR drop_bit (7 - shift) (cb AND 0x7f)))"
    show ?thesis
    proof (cases "cb = 0")
      case True
      with "1.prems" Some a adv1 show ?thesis
        by (simp add: read_str_loop.simps [of E rdr])
    next
      case nz: False
      have unf: "read_str_loop E rdr wtr lb shift =
        (if shift < 7 then
           (if w1 = None then (rdr1, w1) else read_str_loop E rdr1 w1 cb (shift + 1))
         else (case reader_getc rdr1 of
                 None \<Rightarrow> (rdr1, w1)
               | Some (lb', rdr2) \<Rightarrow>
                   if lb' = 0 then (rdr2, w1) else read_str_loop E rdr2 w1 lb' 1))"
        unfolding w1_def
        by (subst read_str_loop.simps)
           (simp only: Some a nz Let_def option.case prod.case if_False)
      show ?thesis
      proof (cases "shift < 7")
        case True
        show ?thesis
        proof (cases "w1 = None")
          case True
          with "1.prems" \<open>shift < 7\<close> adv1 show ?thesis
            by (simp add: unf)
        next
          case False
          with "1.prems" \<open>shift < 7\<close>
          have "read_str_loop E rdr1 w1 cb (shift + 1) = (rdr', wtr')"
            by (simp add: unf)
          with "1.IH"(1) [OF Some a [symmetric] nz refl w1_def True False]
          have "reader_adv rdr1 rdr'" by simp
          with adv1 show ?thesis by (rule reader_adv_trans)
        qed
      next
        case s7: False
        show ?thesis
        proof (cases "reader_getc rdr1")
          case None
          with "1.prems" s7 adv1 show ?thesis
            by (simp add: unf)
        next
          case g2: (Some b)
          obtain lb' rdr2 where b: "b = (lb', rdr2)" by (cases b)
          from g2 b have adv2: "reader_adv rdr1 rdr2" by (simp add: reader_getc_adv)
          show ?thesis
          proof (cases "lb' = 0")
            case True
            with "1.prems" s7 g2 b have "rdr' = rdr2" by (simp add: unf)
            with adv1 adv2 show ?thesis by (blast intro: reader_adv_trans)
          next
            case False
            with "1.prems" s7 g2 b
            have "read_str_loop E rdr2 w1 lb' 1 = (rdr', wtr')"
              by (simp add: unf)
            with "1.IH"(2) [OF Some a [symmetric] nz refl w1_def s7 g2 b [symmetric] False]
            have "reader_adv rdr2 rdr'" by simp
            with adv1 adv2 show ?thesis by (blast intro: reader_adv_trans)
          qed
        qed
      qed
    qed
  qed
qed

lemma read_str_adv:
  "read_str E rdr = Inr (s, rdr') \<Longrightarrow> reader_adv rdr rdr'"
  by (auto simp: read_str_def split: option.splits if_splits prod.splits
           dest!: reader_getc_adv read_str_loop_adv intro: reader_adv_trans)

lemma unpack_arg_adv:
  "unpack_arg K E ch rdr = Inr (r, rdr') \<Longrightarrow> reader_adv rdr rdr'"
  by (auto simp: unpack_arg_def read_int_def read_time_def bindE_def reader_adv_refl
           split: if_splits sum.splits option.splits
           dest: read_plain_int_adv read_str_adv)

text \<open>
  The loop of \<^verbatim>\<open>unpack\<close>: it reads elements into the tuple until the input ends or a
  separator is read. (\<^verbatim>\<open>TUPLE_START_SIZE\<close> and \<^verbatim>\<open>_PyTuple_Resize\<close> only manage the capacity
  of the tuple, whose size is set to the number of elements stored at the end.)
\<close>

function unpack ::
  "header \<Rightarrow> env \<Rightarrow> reader \<Rightarrow> pyobj list \<Rightarrow> error + (pyobj list \<times> reader)" where
  "unpack K E rdr tup =
     (if rdr_pos rdr < rdr_size rdr then
        (case reader_getc rdr of
           None \<Rightarrow> Inr (tup, rdr)
         | Some (ch, rdr1) \<Rightarrow>
             (case unpack_arg K E ch rdr1 of
                Inl e \<Rightarrow> Inl e
              | Inr (None, rdr2) \<Rightarrow> Inr (tup, rdr2)
              | Inr (Some arg, rdr2) \<Rightarrow> unpack K E rdr2 (tup @ [arg])))
      else Inr (tup, rdr))"
  by pat_completeness auto
termination
proof (relation "measure (\<lambda>(K, E, rdr, tup). nat (rdr_size rdr - rdr_pos rdr))", goal_cases)
  case 1
  show ?case by simp
next
  case (2 K E rdr tup x2 ch rdr1 b r rdr2 arg)
  from 2 have "reader_getc rdr = Some (ch, rdr1)" by simp
  then have a: "rdr_pos rdr1 = rdr_pos rdr + 1" "rdr_size rdr1 = rdr_size rdr"
    by (auto dest: reader_getc_adv simp: reader_adv_def)
  from 2 have "unpack_arg K E ch rdr1 = Inr (Some arg, rdr2)" by simp
  then have "reader_adv rdr1 rdr2" by (rule unpack_arg_adv)
  with a 2(1) show ?case by (simp add: reader_adv_def)
qed


declare unpack.simps [simp del]

lemma unpack_adv:
  "unpack K E rdr tup = Inr (t, rdr') \<Longrightarrow>
   reader_adv rdr rdr' \<and> (rdr_pos rdr < rdr_size rdr \<longrightarrow> rdr_pos rdr < rdr_pos rdr')"
proof (induction K E rdr tup arbitrary: t rdr' rule: unpack.induct)
  case (1 K E rdr tup)
  show ?case
  proof (cases "rdr_pos rdr < rdr_size rdr")
    case False
    with "1.prems" show ?thesis
      by (simp add: unpack.simps [of K E rdr] reader_adv_refl)
  next
    case True
    then obtain ch rdr1 where g: "reader_getc rdr = Some (ch, rdr1)"
      by (simp add: reader_getc_def)
    then have adv1: "reader_adv rdr rdr1" "rdr_pos rdr1 = rdr_pos rdr + 1"
      by (auto dest: reader_getc_adv)
    from "1.prems" True g obtain r rdr2 where
      u: "unpack_arg K E ch rdr1 = Inr (r, rdr2)"
      by (cases "unpack_arg K E ch rdr1")
         (auto simp: unpack.simps [of K E rdr])
    then have adv2: "reader_adv rdr1 rdr2" by (rule unpack_arg_adv)
    show ?thesis
    proof (cases r)
      case None
      with "1.prems" True g u have "rdr' = rdr2"
        by (simp add: unpack.simps [of K E rdr])
      with adv1 adv2 show ?thesis by (auto simp: reader_adv_def)
    next
      case (Some arg)
      with "1.prems" True g u have "unpack K E rdr2 (tup @ [arg]) = Inr (t, rdr')"
        by (simp add: unpack.simps [of K E rdr])
      with "1.IH" [OF True g refl u refl Some]
      have "reader_adv rdr2 rdr'" by simp
      with adv1 adv2 show ?thesis by (auto simp: reader_adv_def)
    qed
  qed
qed

text \<open>
  \<^verbatim>\<open>py_unpack(prefix, s)\<close>, exported as \<^verbatim>\<open>unpack\<close>: \<^verbatim>\<open>ValueError\<close> when the input is shorter
  than the prefix, \<^verbatim>\<open>None\<close> when \<^verbatim>\<open>memcmp\<close> finds a difference, and otherwise the tuple
  decoded after the prefix.
\<close>

definition memcmp_differs :: "byte list \<Rightarrow> byte list \<Rightarrow> nat \<Rightarrow> bool" where
  "memcmp_differs a b n = (take n a \<noteq> take n b)"

definition py_unpack :: "header \<Rightarrow> env \<Rightarrow> byte list \<Rightarrow> byte list \<Rightarrow> error + pyobj" where
  "py_unpack K E prefix s =
     (let s_len = int (length s); prefix_len = int (length prefix) in
      if s_len < prefix_len then Inl ValueError
      else if memcmp_differs prefix s (nat prefix_len) then Inr PyNone
      else
        (let rdr = reader_init s s_len;
             rdr = rdr\<lparr>rdr_pos := rdr_pos rdr + prefix_len\<rparr>
         in bindE (unpack K E rdr []) (\<lambda>(tup, rdr). Inr (PyTuple tup))))"

text \<open>
  The loop of \<^verbatim>\<open>unpacks\<close>: one \<^verbatim>\<open>unpack\<close> per round while input remains.
  (\<^verbatim>\<open>LIST_START_SIZE\<close> only decides which of the first items are stored in place and which
  are appended; the list ends with the tuples in the order decoded.)
\<close>

function unpacks_loop ::
  "header \<Rightarrow> env \<Rightarrow> reader \<Rightarrow> pyobj list \<Rightarrow> error + pyobj list" where
  "unpacks_loop K E rdr tups =
     (if rdr_pos rdr < rdr_size rdr then
        (case unpack K E rdr [] of
           Inl e \<Rightarrow> Inl e
         | Inr (tup, rdr') \<Rightarrow> unpacks_loop K E rdr' (tups @ [PyTuple tup]))
      else Inr tups)"
  by pat_completeness auto
termination
proof (relation "measure (\<lambda>(K, E, rdr, tups). nat (rdr_size rdr - rdr_pos rdr))", goal_cases)
  case 1
  show ?case by simp
next
  case (2 K E rdr tups b tup rdr')
  then have "unpack K E rdr [] = Inr (tup, rdr')" by simp
  from unpack_adv [OF this] 2(1) show ?case by (simp add: reader_adv_def)
qed

declare unpacks_loop.simps [simp del]

definition unpacks :: "header \<Rightarrow> env \<Rightarrow> byte list \<Rightarrow> byte list \<Rightarrow> error + pyobj" where
  "unpacks K E prefix s =
     (let s_len = int (length s); prefix_len = int (length prefix) in
      if s_len < prefix_len then Inl ValueError
      else if memcmp_differs prefix s (nat prefix_len) then Inr PyNone
      else
        (let rdr = reader_init s s_len;
             rdr = rdr\<lparr>rdr_pos := rdr_pos rdr + prefix_len\<rparr>
         in bindE (unpacks_loop K E rdr []) (\<lambda>tups. Inr (PyList tups))))"

subsection \<open>Offset tables: the decoder\<close>

text \<open>
  The loop of \<^verbatim>\<open>py_decode_offsets\<close>: \<open>i\<close> counts up to \<open>count\<close>, \<open>pos\<close> is the running sum
  (a \<^verbatim>\<open>uint64_t\<close>, so it wraps), \<open>n\<close> the size the list was created with and \<open>out\<close> its items
  so far. \<^verbatim>\<open>PyList_SET_ITEM\<close> outside the list is a store outside an object.
\<close>

lemma u64_succ_measure:
  assumes "i < (count :: u64)"
  shows "unat count - unat (i + 1) < unat count - unat i"
proof -
  from assms have lt: "unat i < unat count" by (simp add: word_less_nat_alt)
  have "unat count < 2 ^ 64" by (rule order_less_le_trans [OF unsigned_less]) simp
  with lt have "unat (i + 1) = unat i + 1" by (simp add: unat_word_ariths)
  with lt show ?thesis by simp
qed

function offsets_loop ::
  "env \<Rightarrow> reader \<Rightarrow> u64 \<Rightarrow> u64 \<Rightarrow> u64 \<Rightarrow> int \<Rightarrow> pyobj list \<Rightarrow> error + (pyobj list \<times> reader)" where
  "offsets_loop E rdr count i pos n out =
     (if i < count then
        bindE (read_plain_int E rdr) (\<lambda>(offset, rdr).
          (let pos = pos + offset in
           if 1 + uint i < n then offsets_loop E rdr count (i + 1) pos n (out @ [PyInt pos])
           else Inl Abort))
      else Inr (out, rdr))"
  by pat_completeness auto
termination
  by (relation "measure (\<lambda>(E, rdr, count, i, pos, n, out). unat count - unat i)")
     (auto intro: u64_succ_measure)

declare offsets_loop.simps [simp del]

text \<open>
  \<^verbatim>\<open>py_decode_offsets(s)\<close>: the list is created with \<^verbatim>\<open>1 + (int) count\<close> items (a negative
  size is refused), its first item is 0, and the result is the pair of the list and the
  reader's position.
\<close>

definition py_decode_offsets :: "env \<Rightarrow> byte list \<Rightarrow> error + pyobj" where
  "py_decode_offsets E s =
     (let rdr = reader_init s (int (length s)) in
      bindE (read_plain_int E rdr) (\<lambda>(count, rdr).
        (let n = 1 + sint (ucast count :: 32 word) in
         if n < 0 then Inl SystemError
         else if n < 1 then Inl Abort
         else
           bindE (offsets_loop E rdr count 0 0 n [PyInt 0]) (\<lambda>(out, rdr).
             Inr (PyTuple [PyList out, PyInt (word_of_int (rdr_pos rdr))])))))"

subsection \<open>Byte-wise comparison\<close>

text \<open>
  The order of the key-value store on encoded keys: unsigned byte-wise comparison, a proper
  prefix before its extensions.
\<close>

fun bytes_less :: "byte list \<Rightarrow> byte list \<Rightarrow> bool" where
  "bytes_less [] [] = False"
| "bytes_less [] (y # ys) = True"
| "bytes_less (x # xs) [] = False"
| "bytes_less (x # xs) (y # ys) = (x < y \<or> (x = y \<and> bytes_less xs ys))"

subsection \<open>A sample header and environment\<close>

text \<open>
  Modelled from the spec: \<^verbatim>\<open>centidb.h\<close> is not among the sources. The spec fixes the order
  of the kind tags (\<^verbatim>\<open>SEP < NULL < NEG_TIME < NEG_INTEGER < BOOL < INTEGER < TIME < BLOB <
  TEXT < UUID\<close>), the bias 64 and the divisor 900 of the timestamp's offset field; the tag
  values below are one assignment in that order. The theorems hold for every header that
  meets their hypotheses; this one instantiates them.
\<close>

definition spec_header :: header where
  "spec_header =
     \<lparr>KIND_NULL = 20, KIND_NEG_INTEGER = 40, KIND_INTEGER = 60, KIND_BOOL = 50,
      KIND_BLOB = 80, KIND_TEXT = 90, KIND_UUID = 100, KIND_NEG_TIME = 30, KIND_TIME = 70,
      KIND_SEP = 10, UTCOFFSET_SHIFT = 64, UTCOFFSET_DIV = 900\<rparr>"

text \<open>
  An environment for evaluating the functions: every allocation succeeds, the unassigned
  local of \<^verbatim>\<open>read_plain_int\<close> holds \<open>junk\<close>, text is ASCII (one byte per code point below
  128), \<^verbatim>\<open>uuid.UUID(None, b)\<close> accepts exactly 16 bytes, and the wall clock of
  \<^verbatim>\<open>timegm\<close> counts seconds into 1 January 1970.
\<close>

definition ascii_encode :: "nat list \<Rightarrow> byte list option" where
  "ascii_encode u = (if list_all (\<lambda>c. c < 128) u then Some (map of_nat u) else None)"

definition ascii_decode :: "byte list \<Rightarrow> nat list option" where
  "ascii_decode b = (if list_all (\<lambda>c. c < 128) b then Some (map unat b) else None)"

definition sample_env :: "u64 \<Rightarrow> env" where
  "sample_env junk =
     \<lparr>mem = (\<lambda>n. True),
      uninit = (\<lambda>pos. junk),
      utf8_encode = ascii_encode,
      utf8_decode = ascii_decode,
      uuid_new = (\<lambda>b. if length b = 16 then Some (PyUUID b) else None),
      timegm = (\<lambda>t. word_of_int (((tm_mday t - 1) * 24 + tm_hour t) * 3600
                                     + tm_min t * 60 + tm_sec t)),
      host_utcoffset = 0\<rparr>"

section \<open>Vocabulary of the properties\<close>

text \<open>
  The definitions of this section are not code of the repository: they name what the
  properties below talk about.
\<close>

text \<open>
  \<open>wrote w bs r\<close>: the writer operation with result \<open>r\<close> succeeded on \<open>w\<close>, appended exactly
  the bytes \<open>bs\<close> and left a writer with slack.
\<close>

definition wrote :: "writer \<Rightarrow> byte list \<Rightarrow> writer option \<Rightarrow> bool" where
  "wrote w bs r = (\<exists>w'. r = Some w' \<and> writer_slack w' \<and> wtr_bytes w' = wtr_bytes w @ bs)"

text \<open>
  The bytes \<^verbatim>\<open>write_int\<close> stores for \<open>v\<close> after the kind tag (its nine branches, without
  the writer), and the bytes of the kind tag itself (none for kind 0).
\<close>

definition varint :: "u64 \<Rightarrow> byte list" where
  "varint v =
     (if v \<le> 240 then [ucast v]
      else if v \<le> 2287 then [241 + ucast (drop_bit 8 (v - 240)), ucast ((v - 240) AND 0xff)]
      else if v \<le> 67823 then
        [0xf9, ucast (drop_bit 8 (v - 2288)), ucast ((v - 2288) AND 0xff)]
      else if v \<le> 0xffffff then
        [0xfa, ucast (drop_bit 16 v), ucast (drop_bit 8 v), ucast v]
      else if v \<le> 0xffffffff then
        [0xfb, ucast (drop_bit 24 v), ucast (drop_bit 16 v), ucast (drop_bit 8 v), ucast v]
      else if v \<le> 0xffffffffff then
        [0xfc, ucast (drop_bit 32 v), ucast (drop_bit 24 v), ucast (drop_bit 16 v),
         ucast (drop_bit 8 v), ucast v]
      else if v \<le> 0xffffffffffff then
        [0xfd, ucast (drop_bit 40 v), ucast (drop_bit 32 v), ucast (drop_bit 24 v),
         ucast (drop_bit 16 v), ucast (drop_bit 8 v), ucast v]
      else if v \<le> 0xffffffffffffff then
        [0xfe, ucast (drop_bit 48 v), ucast (drop_bit 40 v), ucast (drop_bit 32 v),
         ucast (drop_bit 24 v), ucast (drop_bit 16 v), ucast (drop_bit 8 v), ucast v]
      else
        [0xff, ucast (drop_bit 56 v), ucast (drop_bit 48 v), ucast (drop_bit 40 v),
         ucast (drop_bit 32 v), ucast (drop_bit 24 v), ucast (drop_bit 16 v),
         ucast (drop_bit 8 v), ucast v])"

definition tag_bytes :: "byte \<Rightarrow> byte list" where
  "tag_bytes kind = (if kind \<noteq> 0 then [kind] else [])"

text \<open>
  The lead-byte table of section 4.2 of the spec, on natural numbers: \<open>varint_form n\<close> is
  the lead byte, the number of payload bytes and the payload of \<open>n\<close>; \<open>be_bytes k x\<close> is
  \<open>x\<close> in \<open>k\<close> big-endian bytes; \<open>varint_table n\<close> is the encoding the table gives.
\<close>

fun be_bytes :: "nat \<Rightarrow> nat \<Rightarrow> byte list" where
  "be_bytes 0 x = []"
| "be_bytes (Suc k) x = of_nat (x div 256 ^ k) # be_bytes k x"

definition varint_form :: "nat \<Rightarrow> nat \<times> nat \<times> nat" where
  "varint_form n =
     (if n \<le> 240 then (n, 0, 0)
      else if n \<le> 2287 then (241 + (n - 240) div 256, 1, (n - 240) mod 256)
      else if n \<le> 67823 then (249, 2, n - 2288)
      else if n < 2 ^ 24 then (250, 3, n)
      else if n < 2 ^ 32 then (251, 4, n)
      else if n < 2 ^ 40 then (252, 5, n)
      else if n < 2 ^ 48 then (253, 6, n)
      else if n < 2 ^ 56 then (254, 7, n)
      else (255, 8, n))"

definition varint_table :: "nat \<Rightarrow> byte list" where
  "varint_table n = (case varint_form n of (lead, k, payload) \<Rightarrow> of_nat lead # be_bytes k payload)"

text \<open>The low \<open>k\<close> bytes of a word, put together byte by byte as the decoder does.\<close>

fun le_or :: "nat \<Rightarrow> u64 \<Rightarrow> u64" where
  "le_or 0 v = 0"
| "le_or (Suc k) v = push_bit (8 * k) (take_bit 8 (drop_bit (8 * k) v)) OR le_or k v"

text \<open>The reader \<^verbatim>\<open>reader_init\<close> makes for the byte string \<open>s\<close>, moved to position \<open>i\<close>.\<close>

definition rdr_at :: "byte list \<Rightarrow> nat \<Rightarrow> reader" where
  "rdr_at s i = \<lparr>rdr_p = s, rdr_size = int (length s), rdr_pos = int i\<rparr>"

text \<open>
  The bytes \<^verbatim>\<open>write_str\<close> stores after the kind tag: \<open>enc_loop\<close> is its loop without the
  writer (the bytes stored, and the final \<open>shift\<close> and \<open>trailer\<close>), \<open>enc_fin\<close> the bytes stored
  after the loop, \<open>str_bytes p\<close> the whole stream for the input \<open>p\<close>.
\<close>

fun enc_loop :: "byte list \<Rightarrow> nat \<Rightarrow> byte \<Rightarrow> byte list \<times> nat \<times> byte" where
  "enc_loop [] shift trailer = ([], shift, trailer)"
| "enc_loop (ob # p) shift trailer =
     (if shift < 7 then
        (case enc_loop p (shift + 1) (push_bit (7 - shift) ob) of
           (bs, s, t) \<Rightarrow> ((0x80 OR trailer OR drop_bit shift ob) # bs, s, t))
      else
        (case enc_loop p 1 0 of
           (bs, s, t) \<Rightarrow> ((0x80 OR trailer OR drop_bit shift ob) # (0x80 OR ob) # bs, s, t)))"

definition enc_fin :: "nat \<Rightarrow> byte \<Rightarrow> byte list" where
  "enc_fin shift trailer =
     (if shift > 1 then trailer # (if trailer \<noteq> 0 then [0] else []) else [0])"

definition str_bytes :: "byte list \<Rightarrow> byte list" where
  "str_bytes p = (case enc_loop p 1 0 of (bs, shift, trailer) \<Rightarrow> bs @ enc_fin shift trailer)"

text \<open>
  \<open>str_lossy p\<close>: \<^verbatim>\<open>write_str\<close> ends inside a group of seven with a zero trailer, so the
  trailer byte it stores is itself the terminator. \<open>str_decoded p\<close> is what \<^verbatim>\<open>read_str\<close>
  returns for the stream of \<open>p\<close>: \<open>p\<close>, without its last byte in that case.
\<close>

definition str_lossy :: "byte list \<Rightarrow> bool" where
  "str_lossy p = (case enc_loop p 1 0 of (bs, s, t) \<Rightarrow> 1 < s \<and> t = 0)"

definition str_decoded :: "byte list \<Rightarrow> byte list" where
  "str_decoded p = (if str_lossy p then butlast p else p)"

text \<open>
  \<open>wrote_opt w bso r\<close>: the operation with result \<open>r\<close> failed when \<open>bso\<close> is \<open>None\<close>, and
  otherwise appended exactly the bytes \<open>bso\<close> holds.
\<close>

definition wrote_opt :: "writer \<Rightarrow> byte list option \<Rightarrow> writer option \<Rightarrow> bool" where
  "wrote_opt w bso r = (case bso of None \<Rightarrow> r = None | Some bs \<Rightarrow> wrote w bs r)"

text \<open>
  The bytes of an element, a tuple, an item of \<^verbatim>\<open>packs\<close> and a batch, without the writer:
  \<open>enc_signed\<close> follows \<^verbatim>\<open>write_signed\<close>, \<open>enc_time\<close> follows \<^verbatim>\<open>write_time\<close> (whose magnitude is
  \<open>time_magnitude\<close>), \<open>enc_value\<close> follows \<^verbatim>\<open>c_encode_value\<close>, \<open>enc_key\<close> follows
  \<^verbatim>\<open>c_encode_key\<close>, \<open>enc_batch\<close> the loop of \<^verbatim>\<open>packs\<close> and \<open>enc_packs\<close> what \<^verbatim>\<open>packs\<close> stores
  after the prefix. \<open>None\<close> is a failed encoder.
\<close>

definition enc_signed :: "header \<Rightarrow> u64 \<Rightarrow> byte list" where
  "enc_signed K v =
     (if v <s 0 then tag_bytes (KIND_NEG_INTEGER K) @ varint (- v)
      else tag_bytes (KIND_INTEGER K) @ varint v)"

definition time_magnitude :: "header \<Rightarrow> env \<Rightarrow> datetime \<Rightarrow> u64" where
  "time_magnitude K E dt =
     push_bit 7
       (timegm E \<lparr>tm_sec = dt_second dt, tm_min = dt_minute dt, tm_hour = dt_hour dt,
                  tm_mday = dt_day dt, tm_mon = dt_month dt - 1, tm_year = dt_year dt - 1900\<rparr>
          * 1000 + word_of_int (dt_microsecond dt div 1000))
     OR word_of_int (UTCOFFSET_SHIFT K + c_div (get_utcoffset_secs E dt) (UTCOFFSET_DIV K))"

definition enc_time :: "header \<Rightarrow> env \<Rightarrow> datetime \<Rightarrow> byte list option" where
  "enc_time K E dt =
     (let offset_bits = UTCOFFSET_SHIFT K + c_div (get_utcoffset_secs E dt) (UTCOFFSET_DIV K);
          ts = time_magnitude K E dt
      in if get_utcoffset_secs E dt = - 1 then Some []
         else if UTCOFFSET_DIV K = 0 \<or> \<not> (0 \<le> offset_bits \<and> offset_bits \<le> 0x7f) then None
         else if ts <s 0 then Some (tag_bytes (KIND_NEG_TIME K) @ varint (- ts))
         else Some (tag_bytes (KIND_TIME K) @ varint ts))"

fun enc_value :: "header \<Rightarrow> env \<Rightarrow> pyobj \<Rightarrow> byte list option" where
  "enc_value K E PyNone = Some [KIND_NULL K]"
| "enc_value K E (PyInt v) = Some (enc_signed K v)"
| "enc_value K E (PyString b) = Some (tag_bytes (KIND_BLOB K) @ str_bytes b)"
| "enc_value K E (PyUnicode u) =
     (case utf8_encode E u of
        None \<Rightarrow> None
      | Some utf8 \<Rightarrow> Some (tag_bytes (KIND_TEXT K) @ str_bytes utf8))"
| "enc_value K E (PyBool b) = Some [KIND_BOOL K, if b then 1 else 0]"
| "enc_value K E (PyLong i) =
     (if - (2 ^ 63) \<le> i \<and> i < 2 ^ 63 then Some (enc_signed K (word_of_int i)) else None)"
| "enc_value K E (PyDateTime dt) = enc_time K E dt"
| "enc_value K E (PyUUID ss) = Some (tag_bytes (KIND_UUID K) @ str_bytes ss)"
| "enc_value K E (PyTuple xs) = None"
| "enc_value K E (PyList xs) = None"
| "enc_value K E (PyOther name) = None"

fun enc_key :: "header \<Rightarrow> env \<Rightarrow> pyobj list \<Rightarrow> byte list option" where
  "enc_key K E [] = Some []"
| "enc_key K E (x # xs) =
     (case enc_value K E x of
        None \<Rightarrow> None
      | Some b \<Rightarrow> (case enc_key K E xs of None \<Rightarrow> None | Some bs \<Rightarrow> Some (b @ bs)))"

definition enc_item :: "header \<Rightarrow> env \<Rightarrow> pyobj \<Rightarrow> byte list option" where
  "enc_item K E elem = (case elem of PyTuple xs \<Rightarrow> enc_key K E xs | _ \<Rightarrow> enc_value K E elem)"

fun enc_batch :: "header \<Rightarrow> env \<Rightarrow> nat \<Rightarrow> pyobj list \<Rightarrow> byte list option" where
  "enc_batch K E i [] = Some []"
| "enc_batch K E i (elem # elems) =
     (case enc_item K E elem of
        None \<Rightarrow> None
      | Some b \<Rightarrow>
          (case enc_batch K E (i + 1) elems of
             None \<Rightarrow> None
           | Some bs \<Rightarrow> Some ((if i \<noteq> 0 then [KIND_SEP K] else []) @ b @ bs)))"

definition enc_packs :: "header \<Rightarrow> env \<Rightarrow> pyobj \<Rightarrow> byte list option" where
  "enc_packs K E tups =
     (case tups of PyList elems \<Rightarrow> enc_batch K E 0 elems | _ \<Rightarrow> enc_item K E tups)"

text \<open>\<open>starts_with s p\<close>: the byte string \<open>s\<close> begins with \<open>p\<close>.\<close>

definition starts_with :: "byte list \<Rightarrow> byte list \<Rightarrow> bool" where
  "starts_with s p = (take (length p) s = p)"

text \<open>Midnight of 1 January 1970 on a wall clock with the given UTC offset in seconds.\<close>

definition epoch_plus :: "int \<Rightarrow> datetime" where
  "epoch_plus offset =
     \<lparr>dt_year = 1970, dt_month = 1, dt_day = 1, dt_hour = 0, dt_minute = 0, dt_second = 0,
      dt_microsecond = 0, dt_utcoffset = Some offset\<rparr>"

text \<open>
  What the decoder needs of the header: the kind tags are distinct (they are the labels of
  one \<^verbatim>\<open>switch\<close>), and those that \<^verbatim>\<open>write_int\<close> and \<^verbatim>\<open>write_str\<close> store are not zero,
  the value for which these skip the tag.
\<close>

definition header_ok :: "header \<Rightarrow> bool" where
  "header_ok K =
     (distinct [KIND_NULL K, KIND_INTEGER K, KIND_NEG_INTEGER K, KIND_BOOL K, KIND_BLOB K,
                KIND_TEXT K, KIND_NEG_TIME K, KIND_TIME K, KIND_UUID K, KIND_SEP K] \<and>
      KIND_INTEGER K \<noteq> 0 \<and> KIND_NEG_INTEGER K \<noteq> 0 \<and> KIND_BLOB K \<noteq> 0 \<and>
      KIND_TEXT K \<noteq> 0 \<and> KIND_UUID K \<noteq> 0)"

text \<open>\<open>plain x\<close>: an element other than a timestamp.\<close>

fun plain :: "pyobj \<Rightarrow> bool" where
  "plain PyNone = True"
| "plain (PyInt v) = True"
| "plain (PyLong i) = True"
| "plain (PyBool b) = True"
| "plain (PyString b) = True"
| "plain (PyUnicode u) = True"
| "plain (PyUUID ss) = True"
| "plain (PyDateTime dt) = False"
| "plain (PyTuple xs) = False"
| "plain (PyList xs) = False"
| "plain (PyOther name) = False"

text \<open>
  What \<^verbatim>\<open>unpack\<close> makes of the bytes \<^verbatim>\<open>c_encode_value\<close> stored for an element whose payload
  starts at position \<open>pos\<close> of the input: \<open>dec_signed\<close> for an integer (a magnitude up to
  240 comes back as the unassigned local of \<^verbatim>\<open>read_plain_int\<close>), \<open>dec_value\<close> for any plain
  element, \<open>dec_key\<close> for the elements of a tuple whose first tag is at position \<open>pos\<close>;
  \<open>enc_len\<close> is the number of bytes of an element.
\<close>

definition dec_signed :: "env \<Rightarrow> nat \<Rightarrow> u64 \<Rightarrow> pyobj" where
  "dec_signed E pos v =
     (let m = (if v <s 0 then - v else v);
          r = (if m \<le> 240 then uninit E (int pos) else m)
      in PyLong (if v <s 0 then - uint r else uint r))"

fun dec_value :: "env \<Rightarrow> nat \<Rightarrow> pyobj \<Rightarrow> error + pyobj" where
  "dec_value E pos PyNone = Inr PyNone"
| "dec_value E pos (PyInt v) = Inr (dec_signed E pos v)"
| "dec_value E pos (PyLong i) = Inr (dec_signed E pos (word_of_int i))"
| "dec_value E pos (PyBool b) = Inr (PyBool (uninit E (int pos) \<noteq> 0))"
| "dec_value E pos (PyString b) = Inr (PyString (str_decoded b))"
| "dec_value E pos (PyUnicode u) =
     (case utf8_encode E u of
        None \<Rightarrow> Inl UnicodeDecodeError
      | Some b \<Rightarrow>
          (case utf8_decode E (str_decoded b) of
             None \<Rightarrow> Inl UnicodeDecodeError
           | Some u' \<Rightarrow> Inr (PyUnicode u')))"
| "dec_value E pos (PyUUID ss) =
     (case uuid_new E (str_decoded ss) of None \<Rightarrow> Inl ValueError | Some u \<Rightarrow> Inr u)"
| "dec_value E pos (PyDateTime dt) = Inl Abort"
| "dec_value E pos (PyTuple xs) = Inl ValueError"
| "dec_value E pos (PyList xs) = Inl ValueError"
| "dec_value E pos (PyOther name) = Inl ValueError"

definition enc_len :: "header \<Rightarrow> env \<Rightarrow> pyobj \<Rightarrow> nat" where
  "enc_len K E x = (case enc_value K E x of None \<Rightarrow> 0 | Some b \<Rightarrow> length b)"

fun dec_key :: "header \<Rightarrow> env \<Rightarrow> nat \<Rightarrow> pyobj list \<Rightarrow> error + pyobj list" where
  "dec_key K E pos [] = Inr []"
| "dec_key K E pos (x # xs) =
     bindE (dec_value E (Suc pos) x) (\<lambda>y.
       bindE (dec_key K E (pos + enc_len K E x) xs) (\<lambda>ys. Inr (y # ys)))"

text \<open>
  \<^verbatim>\<open>read_int\<close> builds a Python \<^verbatim>\<open>long\<close> where the caller may have packed an \<^verbatim>\<open>int\<close>; Python
  compares the two by value. \<open>as_long\<close> turns the \<^verbatim>\<open>int\<close>s of a value into \<^verbatim>\<open>long\<close>s, so that
  equality of the models is equality in Python.
\<close>

fun as_long :: "pyobj \<Rightarrow> pyobj" where
  "as_long (PyInt v) = PyLong (sint v)"
| "as_long (PyTuple xs) = PyTuple (map as_long xs)"
| "as_long x = x"

text \<open>
  \<open>roundtrips E x\<close>: the element \<open>x\<close> is null, an integer of magnitude above 240 within
  \<^verbatim>\<open>int64_t\<close>, or a blob, text or UUID whose stream does not end in a zero trailer and, for
  text and UUIDs, which the host's UTF-8 codec or UUID constructor gives back from its bytes.
  \<open>roundtrips_value\<close>: a tuple of such elements, or one such element.
\<close>

fun roundtrips :: "env \<Rightarrow> pyobj \<Rightarrow> bool" where
  "roundtrips E PyNone = True"
| "roundtrips E (PyInt v) = (240 < (if v <s 0 then - v else v))"
| "roundtrips E (PyLong i) = (- (2 ^ 63) \<le> i \<and> i < 2 ^ 63 \<and> 240 < \<bar>i\<bar>)"
| "roundtrips E (PyString b) = (\<not> str_lossy b)"
| "roundtrips E (PyUnicode u) =
     (case utf8_encode E u of
        None \<Rightarrow> False
      | Some b \<Rightarrow> \<not> str_lossy b \<and> utf8_decode E b = Some u)"
| "roundtrips E (PyUUID ss) = (\<not> str_lossy ss \<and> uuid_new E ss = Some (PyUUID ss))"
| "roundtrips E x = False"

definition roundtrips_value :: "env \<Rightarrow> pyobj \<Rightarrow> bool" where
  "roundtrips_value E v = (case v of PyTuple xs \<Rightarrow> list_all (roundtrips E) xs | _ \<Rightarrow> roundtrips E v)"

text \<open>
  \<open>decodable E x\<close>: the element \<open>x\<close> is not a timestamp, \<^verbatim>\<open>c_encode_value\<close> accepts it, and
  \<^verbatim>\<open>unpack\<close> builds some object from its bytes: for text, the UTF-8 decoder accepts what
  \<^verbatim>\<open>read_str\<close> returns; for a UUID, the constructor does. \<open>decodable_tuple\<close>: a tuple of
  such elements.
\<close>

fun decodable :: "env \<Rightarrow> pyobj \<Rightarrow> bool" where
  "decodable E PyNone = True"
| "decodable E (PyInt v) = True"
| "decodable E (PyLong i) = (- (2 ^ 63) \<le> i \<and> i < 2 ^ 63)"
| "decodable E (PyBool b) = True"
| "decodable E (PyString b) = True"
| "decodable E (PyUnicode u) =
     (case utf8_encode E u of
        None \<Rightarrow> False
      | Some b \<Rightarrow> utf8_decode E (str_decoded b) \<noteq> None)"
| "decodable E (PyUUID ss) = (uuid_new E (str_decoded ss) \<noteq> None)"
| "decodable E x = False"

definition decodable_tuple :: "env \<Rightarrow> pyobj \<Rightarrow> bool" where
  "decodable_tuple E t = (case t of PyTuple xs \<Rightarrow> list_all (decodable E) xs | _ \<Rightarrow> False)"

text \<open>The bytes of a sequence of tuples, each followed by the separator.\<close>

fun enc_trail :: "header \<Rightarrow> env \<Rightarrow> pyobj list \<Rightarrow> byte list option" where
  "enc_trail K E [] = Some []"
| "enc_trail K E (t # ts) =
     (case enc_item K E t of
        None \<Rightarrow> None
      | Some b \<Rightarrow>
          (case enc_trail K E ts of None \<Rightarrow> None | Some bs \<Rightarrow> Some (b @ KIND_SEP K # bs)))"

section \<open>Properties\<close>

subsection \<open>The writer keeps one byte of slack\<close>

lemma writer_slack_iff:
  "writer_slack w \<longleftrightarrow> (\<exists>b. wtr_s w = Some b \<and> 0 \<le> wtr_pos w \<and> wtr_pos w < int (length b))"
  by (auto simp: writer_slack_def wtr_size_def split: option.splits)

lemma length_PyString_Resize: "0 \<le> n \<Longrightarrow> length (PyString_Resize b n) = nat n"
  by (auto simp: PyString_Resize_def)

lemma take_PyString_Resize:
  "k \<le> length b \<Longrightarrow> int (length b) \<le> n \<Longrightarrow> take k (PyString_Resize b n) = take k b"
  by (auto simp: PyString_Resize_def)

lemma writer_grow_Some:
  assumes "writer_grow E w = Some w'" and "writer_slack w"
  shows "wtr_pos w' = wtr_pos w \<and> wtr_size w < wtr_size w' \<and> wtr_bytes w' = wtr_bytes w"
proof -
  from assms(2) obtain b where b: "wtr_s w = Some b" "0 \<le> wtr_pos w" "wtr_pos w < int (length b)"
    by (auto simp: writer_slack_iff)
  define newsize where
    "newsize = (if int (length b) * 2 > int (length b) + 512 then int (length b) + 512
                else int (length b) * 2)"
  from b have ns: "int (length b) < newsize" by (auto simp: newsize_def)
  from assms(1) b have w': "w' = w\<lparr>wtr_s := Some (PyString_Resize b newsize)\<rparr>"
    by (auto simp: writer_grow_def Let_def newsize_def split: if_splits)
  from ns have "length (PyString_Resize b newsize) = nat newsize"
    by (simp add: length_PyString_Resize)
  moreover from ns b have "take (nat (wtr_pos w)) (PyString_Resize b newsize) = take (nat (wtr_pos w)) b"
    by (intro take_PyString_Resize) auto
  ultimately show ?thesis using b ns
    by (simp add: w' wtr_size_def wtr_bytes_def)
qed

lemma writer_grow_total:
  "\<forall>n. mem E n \<Longrightarrow> wtr_s w \<noteq> None \<Longrightarrow> \<exists>w'. writer_grow E w = Some w'"
  by (auto simp: writer_grow_def Let_def)

lemma writer_putchar_Some:
  assumes "writer_putchar w ch = Some w'"
  shows "wtr_pos w' = wtr_pos w + 1 \<and> wtr_size w' = wtr_size w \<and>
         wtr_bytes w' = wtr_bytes w @ [ch] \<and> 0 \<le> wtr_pos w \<and> wtr_pos w < wtr_size w"
proof -
  from assms obtain b where b: "wtr_s w = Some b" "0 \<le> wtr_pos w" "wtr_pos w < int (length b)"
    and w': "w' = w\<lparr>wtr_s := Some (b[nat (wtr_pos w) := ch]), wtr_pos := wtr_pos w + 1\<rparr>"
    by (auto simp: writer_putchar_def split: option.splits if_splits)
  from b have "nat (wtr_pos w + 1) = Suc (nat (wtr_pos w))" by simp
  moreover from b have "nat (wtr_pos w) < length b" by simp
  ultimately show ?thesis using b
    by (simp add: w' wtr_size_def wtr_bytes_def take_Suc_conv_app_nth)
qed

lemma writer_putchar_total:
  "writer_slack w \<Longrightarrow> \<exists>w'. writer_putchar w ch = Some w'"
  by (auto simp: writer_slack_iff writer_putchar_def)

lemma writer_slack_wtr_s: "writer_slack w \<Longrightarrow> wtr_s w \<noteq> None"
  by (auto simp: writer_slack_iff)

lemma writer_slackI: "0 \<le> wtr_pos w \<Longrightarrow> wtr_pos w < wtr_size w \<Longrightarrow> writer_slack w"
  by (simp add: writer_slack_def)

lemma writer_putc_Some:
  assumes "writer_putc E w ch = Some w'" and "writer_slack w"
  shows "writer_slack w' \<and> wtr_pos w' = wtr_pos w + 1 \<and> wtr_bytes w' = wtr_bytes w @ [ch]"
proof -
  from assms(2) obtain b where b: "wtr_s w = Some b" by (auto simp: writer_slack_iff)
  have sz: "wtr_size w = int (length b)" using b by (simp add: wtr_size_def)
  show ?thesis
  proof (cases "1 + wtr_pos w = int (length b)")
    case True
    with assms(1) b obtain w1 where g: "writer_grow E w = Some w1" and p: "writer_putchar w1 ch = Some w'"
      by (auto simp: writer_putc_def split: option.splits)
    from writer_grow_Some [OF g assms(2)] writer_putchar_Some [OF p] True sz
    show ?thesis by (auto simp: writer_slack_def)
  next
    case False
    with assms(1) b have p: "writer_putchar w ch = Some w'"
      by (auto simp: writer_putc_def)
    from writer_putchar_Some [OF p] False sz assms(2)
    show ?thesis by (auto simp: writer_slack_def)
  qed
qed

lemma writer_putc_total:
  assumes "\<forall>n. mem E n" and "writer_slack w"
  shows "\<exists>w'. writer_putc E w ch = Some w'"
proof -
  from assms(2) obtain b where b: "wtr_s w = Some b" by (auto simp: writer_slack_iff)
  show ?thesis
  proof (cases "1 + wtr_pos w = int (length b)")
    case True
    from writer_grow_total [OF assms(1)] b obtain w1 where g: "writer_grow E w = Some w1"
      by auto
    from writer_grow_Some [OF g assms(2)] assms(2) have "writer_slack w1"
      by (auto simp: writer_slack_def)
    then obtain w' where "writer_putchar w1 ch = Some w'"
      by (blast dest: writer_putchar_total)
    with True b g show ?thesis by (simp add: writer_putc_def)
  next
    case False
    from writer_putchar_total [OF assms(2)] obtain w' where "writer_putchar w ch = Some w'"
      by blast
    with False b show ?thesis by (simp add: writer_putc_def)
  qed
qed

lemma writer_ensure_Some_aux:
  assumes "writer_ensure E w n = Some w'"
  shows "writer_slack w \<longrightarrow>
   writer_slack w' \<and> wtr_pos w' = wtr_pos w \<and> wtr_bytes w' = wtr_bytes w \<and>
   n \<le> wtr_size w' - (wtr_pos w' + 1)"
proof (rule writer_ensure.raw_induct [where P = "\<lambda>E w n w'. writer_slack w \<longrightarrow>
   writer_slack w' \<and> wtr_pos w' = wtr_pos w \<and> wtr_bytes w' = wtr_bytes w \<and>
   n \<le> wtr_size w' - (wtr_pos w' + 1)", OF _ assms])
  fix ensure :: "env \<Rightarrow> writer \<Rightarrow> int \<Rightarrow> writer option" and E w n w'
  assume IH: "\<And>E w n w'. ensure E w n = Some w' \<Longrightarrow> writer_slack w \<longrightarrow>
     writer_slack w' \<and> wtr_pos w' = wtr_pos w \<and> wtr_bytes w' = wtr_bytes w \<and>
     n \<le> wtr_size w' - (wtr_pos w' + 1)"
  assume body: "(case wtr_s w of None \<Rightarrow> None
      | Some b \<Rightarrow>
          if int (length b) - (wtr_pos w + 1) < n
          then case writer_grow E w of None \<Rightarrow> None | Some w' \<Rightarrow> ensure E w' n
          else Some w) = Some w'"
  show "writer_slack w \<longrightarrow>
     writer_slack w' \<and> wtr_pos w' = wtr_pos w \<and> wtr_bytes w' = wtr_bytes w \<and>
     n \<le> wtr_size w' - (wtr_pos w' + 1)"
  proof
    assume sl: "writer_slack w"
    then obtain b where b: "wtr_s w = Some b" by (auto simp: writer_slack_iff)
    have sz: "wtr_size w = int (length b)" using b by (simp add: wtr_size_def)
    show "writer_slack w' \<and> wtr_pos w' = wtr_pos w \<and> wtr_bytes w' = wtr_bytes w \<and>
          n \<le> wtr_size w' - (wtr_pos w' + 1)"
    proof (cases "int (length b) - (wtr_pos w + 1) < n")
      case True
      with body b obtain w1 where g: "writer_grow E w = Some w1"
        and e: "ensure E w1 n = Some w'"
        by (auto split: option.splits)
      from writer_grow_Some [OF g sl] sl have s1: "writer_slack w1"
        by (auto simp: writer_slack_def)
      from IH [OF e] s1 writer_grow_Some [OF g sl] show ?thesis by simp
    next
      case False
      with body b sz sl show ?thesis by auto
    qed
  qed
qed

lemma writer_ensure_Some:
  "writer_ensure E w n = Some w' \<Longrightarrow> writer_slack w \<Longrightarrow>
   writer_slack w' \<and> wtr_pos w' = wtr_pos w \<and> wtr_bytes w' = wtr_bytes w \<and>
   n \<le> wtr_size w' - (wtr_pos w' + 1)"
  using writer_ensure_Some_aux by blast

lemma writer_ensure_total:
  assumes "\<forall>n. mem E n"
  shows "writer_slack w \<Longrightarrow> \<exists>w'. writer_ensure E w n = Some w'"
proof (induction "nat (n - (wtr_size w - (wtr_pos w + 1)))" arbitrary: w rule: less_induct)
  case less
  from less.prems obtain b where b: "wtr_s w = Some b" by (auto simp: writer_slack_iff)
  have sz: "wtr_size w = int (length b)" using b by (simp add: wtr_size_def)
  show ?case
  proof (cases "int (length b) - (wtr_pos w + 1) < n")
    case True
    from writer_grow_total [OF assms] b obtain w1 where g: "writer_grow E w = Some w1"
      by auto
    note gs = writer_grow_Some [OF g less.prems]
    from gs less.prems have s1: "writer_slack w1" by (auto simp: writer_slack_def)
    from gs True sz
    have "nat (n - (wtr_size w1 - (wtr_pos w1 + 1))) < nat (n - (wtr_size w - (wtr_pos w + 1)))"
      by auto
    from less.hyps [OF this s1] obtain w' where "writer_ensure E w1 n = Some w'" by blast
    with True b g show ?thesis
      by (subst writer_ensure.simps) simp
  next
    case False
    with b show ?thesis by (subst writer_ensure.simps) simp
  qed
qed

lemma writer_puts_Some:
  assumes "writer_puts E w bs = Some w'" and "writer_slack w"
  shows "writer_slack w' \<and> wtr_pos w' = wtr_pos w + int (length bs) \<and>
         wtr_bytes w' = wtr_bytes w @ bs"
proof -
  from assms(1) obtain w1 where e: "writer_ensure E w (int (length bs)) = Some w1"
    by (auto simp: writer_puts_def split: option.splits)
  note es = writer_ensure_Some [OF e assms(2)]
  then obtain b where b: "wtr_s w1 = Some b" "0 \<le> wtr_pos w1" "wtr_pos w1 < int (length b)"
    by (auto simp: writer_slack_iff)
  with es have room: "wtr_pos w1 + int (length bs) < int (length b)"
    by (simp add: wtr_size_def)
  from b have "wtr_bytes w1 = take (nat (wtr_pos w1)) b"
    by (simp add: wtr_bytes_def)
  with es have bytes1: "take (nat (wtr_pos w1)) b = wtr_bytes w"
    by metis
  from assms(1) e b room
  have w': "w' = w1\<lparr>wtr_s := Some (take (nat (wtr_pos w1)) b @ bs @
                                     drop (nat (wtr_pos w1) + length bs) b),
                     wtr_pos := wtr_pos w1 + int (length bs)\<rparr>"
    by (auto simp: writer_puts_def)
  from b room have n: "nat (wtr_pos w1 + int (length bs)) = nat (wtr_pos w1) + length bs"
    by (simp add: nat_add_distrib)
  from b have l: "length (take (nat (wtr_pos w1)) b) = nat (wtr_pos w1)" by simp
  have tk: "take (nat (wtr_pos w1) + length bs)
          (take (nat (wtr_pos w1)) b @ bs @ drop (nat (wtr_pos w1) + length bs) b) =
        take (nat (wtr_pos w1)) b @ bs"
    using l by simp
  have "wtr_bytes w' = take (nat (wtr_pos w1) + length bs)
          (take (nat (wtr_pos w1)) b @ bs @ drop (nat (wtr_pos w1) + length bs) b)"
    by (simp add: w' wtr_bytes_def n)
  also have "\<dots> = take (nat (wtr_pos w1)) b @ bs" by (rule tk)
  also have "\<dots> = wtr_bytes w @ bs" by (simp only: bytes1)
  finally have "wtr_bytes w' = wtr_bytes w @ bs" .
  moreover have "wtr_pos w' = wtr_pos w + int (length bs)"
    using es by (simp add: w')
  moreover have "writer_slack w'"
    using b room by (simp add: w' writer_slack_def wtr_size_def)
  ultimately show ?thesis by simp
qed

lemma writer_puts_total:
  assumes "\<forall>n. mem E n" and "writer_slack w"
  shows "\<exists>w'. writer_puts E w bs = Some w'"
proof -
  from writer_ensure_total [OF assms] obtain w1
    where e: "writer_ensure E w (int (length bs)) = Some w1" by blast
  note es = writer_ensure_Some [OF e assms(2)]
  then obtain b where b: "wtr_s w1 = Some b" "0 \<le> wtr_pos w1" "wtr_pos w1 < int (length b)"
    by (auto simp: writer_slack_iff)
  with es have "wtr_pos w1 + int (length bs) < int (length b)"
    by (simp add: wtr_size_def)
  with e b show ?thesis by (simp add: writer_puts_def)
qed

lemma writer_init_Some:
  "writer_init E initial = Some w \<Longrightarrow> 0 < initial \<Longrightarrow>
   writer_slack w \<and> wtr_pos w = 0 \<and> wtr_bytes w = []"
  by (auto simp: writer_init_def writer_slack_def wtr_size_def wtr_bytes_def split: if_splits)

lemma writer_init_total:
  "\<forall>n. mem E n \<Longrightarrow> 0 \<le> initial \<Longrightarrow> \<exists>w. writer_init E initial = Some w"
  by (simp add: writer_init_def)

lemma writer_fini_bytes:
  "\<forall>n. mem E n \<Longrightarrow> writer_slack w \<Longrightarrow> writer_fini E w = Some (wtr_bytes w)"
  by (auto simp: writer_fini_def writer_slack_iff wtr_bytes_def PyString_Resize_def)

lemma writer_fini_Some:
  "writer_fini E w = Some bs \<Longrightarrow> writer_slack w \<Longrightarrow> bs = wtr_bytes w"
  by (auto simp: writer_fini_def writer_slack_iff wtr_bytes_def PyString_Resize_def
           split: if_splits)

text \<open>
  C10 (writer slack invariant). \<^verbatim>\<open>writer_init\<close> with a positive size establishes, and every
  successful \<^verbatim>\<open>writer_putc\<close>, \<^verbatim>\<open>writer_puts\<close> and \<^verbatim>\<open>writer_ensure\<close> preserves, that the
  position is non-negative and strictly below the allocated size of the buffer; in such a
  writer the unchecked store of \<^verbatim>\<open>writer_putchar\<close> lands inside the buffer.
\<close>

theorem writer_slack_invariant:
  "(0 < initial \<and> writer_init E initial = Some w0 \<longrightarrow> writer_slack w0) \<and>
   (writer_slack w1 \<and> writer_putc E w1 ch = Some w1' \<longrightarrow> writer_slack w1') \<and>
   (writer_slack w2 \<and> writer_puts E w2 bs = Some w2' \<longrightarrow> writer_slack w2') \<and>
   (writer_slack w3 \<and> writer_ensure E w3 n = Some w3' \<longrightarrow> writer_slack w3') \<and>
   (writer_slack w4 \<longrightarrow>
      0 \<le> wtr_pos w4 \<and> wtr_pos w4 < wtr_size w4 \<and> (\<exists>w4'. writer_putchar w4 c = Some w4'))"
  using writer_init_Some [of E initial w0] writer_putc_Some [of E w1 ch w1']
    writer_puts_Some [of E w2 bs w2'] writer_ensure_Some [of E w3 n w3']
    writer_putchar_total [of w4 c]
  by (auto simp: writer_slack_def)


theorem writer_slack_invariant_witness:
  "writer_init (sample_env 0) 1 = Some \<lparr>wtr_pos = 0, wtr_s = Some [0]\<rparr> \<and>
   writer_slack \<lparr>wtr_pos = 0, wtr_s = Some [0]\<rparr> \<and>
   writer_putc (sample_env 0) \<lparr>wtr_pos = 0, wtr_s = Some [0]\<rparr> 7 =
     Some \<lparr>wtr_pos = 1, wtr_s = Some [7, 0]\<rparr> \<and>
   writer_slack \<lparr>wtr_pos = 1, wtr_s = Some [7, 0]\<rparr> \<and>
   writer_puts (sample_env 0) \<lparr>wtr_pos = 0, wtr_s = Some [0]\<rparr> [1, 2] =
     Some \<lparr>wtr_pos = 2, wtr_s = Some [1, 2, 0, 0]\<rparr> \<and>
   writer_slack \<lparr>wtr_pos = 2, wtr_s = Some [1, 2, 0, 0]\<rparr> \<and>
   writer_ensure (sample_env 0) \<lparr>wtr_pos = 0, wtr_s = Some [0]\<rparr> 2 =
     Some \<lparr>wtr_pos = 0, wtr_s = Some [0, 0, 0, 0]\<rparr> \<and>
   writer_slack \<lparr>wtr_pos = 0, wtr_s = Some [0, 0, 0, 0]\<rparr> \<and>
   writer_putchar \<lparr>wtr_pos = 0, wtr_s = Some [0]\<rparr> 9 =
     Some \<lparr>wtr_pos = 1, wtr_s = Some [9]\<rparr>"
proof -
  let ?E = "sample_env 0"
  let ?w = "\<lparr>wtr_pos = 0, wtr_s = Some [0]\<rparr>"
  have e: "writer_ensure ?E ?w 2 = Some \<lparr>wtr_pos = 0, wtr_s = Some [0, 0, 0, 0]\<rparr>"
    by (simp add: writer_ensure.simps writer_grow_def sample_env_def PyString_Resize_def
        eval_nat_numeral)
  have i: "writer_init ?E 1 = Some ?w"
    by (simp add: writer_init_def sample_env_def)
  have c: "writer_putc ?E ?w 7 = Some \<lparr>wtr_pos = 1, wtr_s = Some [7, 0]\<rparr>"
    by (simp add: writer_putc_def writer_grow_def writer_putchar_def sample_env_def
        PyString_Resize_def)
  have s: "writer_puts ?E ?w [1, 2] = Some \<lparr>wtr_pos = 2, wtr_s = Some [1, 2, 0, 0]\<rparr>"
    by (simp add: writer_puts_def e)
  have pc: "writer_putchar ?w 9 = Some \<lparr>wtr_pos = 1, wtr_s = Some [9]\<rparr>"
    by (simp add: writer_putchar_def)
  from i c s e pc
    writer_slack_invariant [of 1 ?E ?w ?w 7 "\<lparr>wtr_pos = 1, wtr_s = Some [7, 0]\<rparr>"
      ?w "[1, 2]" "\<lparr>wtr_pos = 2, wtr_s = Some [1, 2, 0, 0]\<rparr>" ?w 2
      "\<lparr>wtr_pos = 0, wtr_s = Some [0, 0, 0, 0]\<rparr>" ?w 9]
  show ?thesis by simp
qed

lemma wroteI:
  "r = Some w' \<Longrightarrow> writer_slack w' \<Longrightarrow> wtr_bytes w' = wtr_bytes w @ bs \<Longrightarrow> wrote w bs r"
  by (simp add: wrote_def)

lemma wroteE:
  assumes "wrote w bs r"
  obtains w' where "r = Some w'" "writer_slack w'" "wtr_bytes w' = wtr_bytes w @ bs"
  using assms by (auto simp: wrote_def)

lemma wrote_Some_nil: "writer_slack w \<Longrightarrow> wrote w [] (Some w)"
  by (simp add: wrote_def)

lemma wrote_bind:
  assumes "wrote w bs r"
    and "\<And>w'. writer_slack w' \<Longrightarrow> wtr_bytes w' = wtr_bytes w @ bs \<Longrightarrow> wrote w' cs (f w')"
  shows "wrote w (bs @ cs) (case r of None \<Rightarrow> None | Some w' \<Rightarrow> f w')"
proof -
  from assms(1) obtain w' where w': "r = Some w'" "writer_slack w'" "wtr_bytes w' = wtr_bytes w @ bs"
    by (rule wroteE)
  from assms(2) [OF w'(2,3)] show ?thesis
    by (auto simp: wrote_def w')
qed

lemma wrote_putc:
  assumes "\<forall>n. mem E n" and "writer_slack w"
  shows "wrote w [ch] (writer_putc E w ch)"
proof -
  from writer_putc_total [OF assms] obtain w' where p: "writer_putc E w ch = Some w'" by blast
  from writer_putc_Some [OF p assms(2)] p show ?thesis by (simp add: wrote_def)
qed

lemma writer_putchars_room:
  "writer_slack w \<Longrightarrow> int (length chs) \<le> wtr_size w - (wtr_pos w + 1) \<Longrightarrow>
   wrote w chs (writer_putchars w chs)"
proof (induction chs arbitrary: w)
  case Nil
  then show ?case by (simp add: wrote_Some_nil)
next
  case (Cons ch chs)
  from writer_putchar_total [OF Cons.prems(1)] obtain w1 where p: "writer_putchar w ch = Some w1"
    by blast
  note ps = writer_putchar_Some [OF p]
  with Cons.prems have s1: "writer_slack w1" and r1: "int (length chs) \<le> wtr_size w1 - (wtr_pos w1 + 1)"
    by (auto simp: writer_slack_def)
  from Cons.IH [OF s1 r1] ps p show ?case by (auto simp: wrote_def)
qed

lemma wrote_ensure_putchars:
  assumes "\<forall>n. mem E n" and "writer_slack w" and "n = int (length chs)"
  shows "wrote w chs (case writer_ensure E w n of None \<Rightarrow> None
                      | Some w' \<Rightarrow> writer_putchars w' chs)"
proof -
  from writer_ensure_total [OF assms(1,2)] obtain w1 where e: "writer_ensure E w n = Some w1"
    by blast
  note es = writer_ensure_Some [OF e assms(2)]
  with assms(3) have "wrote w1 chs (writer_putchars w1 chs)"
    by (intro writer_putchars_room) auto
  with es e show ?thesis by (simp add: wrote_def)
qed

lemma wrote_tag:
  "\<forall>n. mem E n \<Longrightarrow> writer_slack w \<Longrightarrow>
   wrote w (tag_bytes kind) (if kind \<noteq> 0 then writer_putc E w kind else Some w)"
  by (simp add: tag_bytes_def wrote_putc wrote_Some_nil)

lemma wrote_write_int:
  assumes "\<forall>n. mem E n" and "writer_slack w"
  shows "wrote w (tag_bytes kind @ varint v) (write_int E w v kind)"
  unfolding write_int_def Let_def
proof (rule wrote_bind [OF wrote_tag [OF assms]])
  fix w' assume "writer_slack w'"
  with assms(1) show "wrote w' (varint v)
     (if v \<le> 240 then writer_putc E w' (ucast v)
      else if v \<le> 2287 then
        (case writer_ensure E w' 2 of None \<Rightarrow> None | Some wtr \<Rightarrow>
            writer_putchars wtr [241 + ucast (drop_bit 8 (v - 240)), ucast ((v - 240) AND 0xff)])
      else if v \<le> 67823 then
        (case writer_ensure E w' 3 of None \<Rightarrow> None | Some wtr \<Rightarrow>
            writer_putchars wtr [0xf9, ucast (drop_bit 8 (v - 2288)), ucast ((v - 2288) AND 0xff)])
      else if v \<le> 0xffffff then
        (case writer_ensure E w' 4 of None \<Rightarrow> None | Some wtr \<Rightarrow>
           writer_putchars wtr
             [0xfa, ucast (drop_bit 16 v), ucast (drop_bit 8 v), ucast v])
      else if v \<le> 0xffffffff then
        (case writer_ensure E w' 5 of None \<Rightarrow> None | Some wtr \<Rightarrow>
           writer_putchars wtr
             [0xfb, ucast (drop_bit 24 v), ucast (drop_bit 16 v), ucast (drop_bit 8 v),
              ucast v])
      else if v \<le> 0xffffffffff then
        (case writer_ensure E w' 6 of None \<Rightarrow> None | Some wtr \<Rightarrow>
           writer_putchars wtr
             [0xfc, ucast (drop_bit 32 v), ucast (drop_bit 24 v), ucast (drop_bit 16 v),
              ucast (drop_bit 8 v), ucast v])
      else if v \<le> 0xffffffffffff then
        (case writer_ensure E w' 7 of None \<Rightarrow> None | Some wtr \<Rightarrow>
           writer_putchars wtr
             [0xfd, ucast (drop_bit 40 v), ucast (drop_bit 32 v), ucast (drop_bit 24 v),
              ucast (drop_bit 16 v), ucast (drop_bit 8 v), ucast v])
      else if v \<le> 0xffffffffffffff then
        (case writer_ensure E w' 8 of None \<Rightarrow> None | Some wtr \<Rightarrow>
           writer_putchars wtr
             [0xfe, ucast (drop_bit 48 v), ucast (drop_bit 40 v), ucast (drop_bit 32 v),
              ucast (drop_bit 24 v), ucast (drop_bit 16 v), ucast (drop_bit 8 v),
              ucast v])
      else
        (case writer_ensure E w' 9 of None \<Rightarrow> None | Some wtr \<Rightarrow>
           writer_putchars wtr
             [0xff, ucast (drop_bit 56 v), ucast (drop_bit 48 v), ucast (drop_bit 40 v),
              ucast (drop_bit 32 v), ucast (drop_bit 24 v), ucast (drop_bit 16 v),
              ucast (drop_bit 8 v), ucast v]))"
    by (simp add: varint_def wrote_putc wrote_ensure_putchars)
qed

lemma py_pack_int_bytes:
  assumes "\<forall>n. mem E n"
  shows "py_pack_int E prefix v = Some (prefix @ varint v)"
proof -
  from writer_init_total [OF assms, of 9] obtain w0 where i: "writer_init E 9 = Some w0"
    by auto
  from writer_init_Some [OF i] have s0: "writer_slack w0" and b0: "wtr_bytes w0 = []" by auto
  from writer_puts_total [OF assms s0] obtain w1 where p: "writer_puts E w0 prefix = Some w1"
    by blast
  from writer_puts_Some [OF p s0] b0 have s1: "writer_slack w1" and b1: "wtr_bytes w1 = prefix"
    by auto
  from wrote_write_int [OF assms s1, of 0 v] obtain w2 where
    w: "write_int E w1 v 0 = Some w2" and s2: "writer_slack w2"
    and b2: "wtr_bytes w2 = prefix @ varint v"
    by (auto simp: wrote_def tag_bytes_def b1)
  from writer_fini_bytes [OF assms s2] i p w b2 show ?thesis
    by (simp add: py_pack_int_def)
qed


lemma unat_drop_bit_div: "unat (drop_bit n (v :: u64)) = unat v div 2 ^ n"
  by (simp only: unat_drop_bit_eq) (simp only: drop_bit_eq_div)

lemma ucast_drop_bit_byte:
  "(ucast (drop_bit n (v :: u64)) :: byte) = of_nat (unat v div 2 ^ n)"
proof -
  have "(ucast (drop_bit n v) :: byte) = of_nat (unat (drop_bit n v))"
    by (simp only: of_nat_unat)
  then show ?thesis by (simp only: unat_drop_bit_div)
qed

lemma ucast_and_mask8: "(ucast ((v :: u64) AND mask 8) :: byte) = ucast v"
  by (rule bit_word_eqI) (auto simp: bit_simps)

lemma ucast_and_ff: "(ucast ((v :: u64) AND 0xff) :: byte) = ucast v"
  using ucast_and_mask8 [of v] by (simp add: mask_eq_exp_minus_1)

lemma byte_of_nat_mod: "(of_nat (n mod 256) :: byte) = of_nat n"
  by (simp add: word_eq_iff_unsigned [where ?'a = nat] unat_of_nat)

lemma u64_le_numerals:
  "((v :: u64) \<le> 240) = (unat v \<le> 240)"
  "(v \<le> 2287) = (unat v \<le> 2287)"
  "(v \<le> 67823) = (unat v \<le> 67823)"
  "(v \<le> 0xffffff) = (unat v < 2 ^ 24)"
  "(v \<le> 0xffffffff) = (unat v < 2 ^ 32)"
  "(v \<le> 0xffffffffff) = (unat v < 2 ^ 40)"
  "(v \<le> 0xffffffffffff) = (unat v < 2 ^ 48)"
  "(v \<le> 0xffffffffffffff) = (unat v < 2 ^ 56)"
  by (auto simp: word_le_nat_alt)

lemma unat_u64_less: "unat (v :: u64) < 2 ^ 64"
  by (rule order_less_le_trans [OF unsigned_less]) simp

lemma unat_sub_const:
  "unat (c :: u64) \<le> unat v \<Longrightarrow> unat (v - c) = unat v - unat c"
  by (simp add: unat_sub word_le_nat_alt)

lemma be_bytes_numeral [simp]:
  "be_bytes (numeral k) x = of_nat (x div 256 ^ pred_numeral k) # be_bytes (pred_numeral k) x"
  by (simp add: numeral_eq_Suc)

lemma be_bytes_1 [simp]: "be_bytes 1 x = [of_nat x]"
  using be_bytes.simps(2) [of 0 x] by simp

lemma varint_eq_table: "varint v = varint_table (unat v)"
proof -
  note le = u64_le_numerals [of v]
  consider "unat v \<le> 240" | "240 < unat v" "unat v \<le> 2287"
    | "2287 < unat v" "unat v \<le> 67823" | "67823 < unat v"
    by linarith
  then show ?thesis
  proof cases
    case 1
    then show ?thesis
      by (simp add: varint_def varint_table_def varint_form_def le)
  next
    case 2
    then have u: "unat (v - 240) = unat v - 240"
      using unat_sub_const [of 240 v] by simp
    have h1: "(241 + ucast (drop_bit 8 (v - 240)) :: byte) =
              of_nat (241 + (unat v - 240) div 256)"
      by (simp only: ucast_drop_bit_byte u) simp
    have "(ucast ((v - 240) AND 0xff) :: byte) = of_nat (unat (v - 240))"
      by (simp only: ucast_and_ff of_nat_unat)
    also have "\<dots> = of_nat ((unat v - 240) mod 256)"
      by (simp only: u byte_of_nat_mod)
    finally have h2: "(ucast ((v - 240) AND 0xff) :: byte) = of_nat ((unat v - 240) mod 256)" .
    from 2 have "varint v = [241 + ucast (drop_bit 8 (v - 240)), ucast ((v - 240) AND 0xff)]"
      by (simp add: varint_def le)
    moreover from 2 have "varint_table (unat v) =
        [of_nat (241 + (unat v - 240) div 256), of_nat ((unat v - 240) mod 256)]"
      by (simp add: varint_table_def varint_form_def)
    ultimately show ?thesis by (simp only: h1 h2)
  next
    case 3
    then have u: "unat (v - 2288) = unat v - 2288"
      using unat_sub_const [of 2288 v] by simp
    have h1: "(ucast (drop_bit 8 (v - 2288)) :: byte) = of_nat ((unat v - 2288) div 256)"
      by (simp only: ucast_drop_bit_byte u) simp
    have "(ucast ((v - 2288) AND 0xff) :: byte) = of_nat (unat (v - 2288))"
      by (simp only: ucast_and_ff of_nat_unat)
    then have h2: "(ucast ((v - 2288) AND 0xff) :: byte) = of_nat (unat v - 2288)"
      by (simp only: u)
    from 3 have "varint v = [0xf9, ucast (drop_bit 8 (v - 2288)), ucast ((v - 2288) AND 0xff)]"
      by (simp add: varint_def le)
    moreover from 3 have "varint_table (unat v) =
        [0xf9, of_nat ((unat v - 2288) div 256), of_nat (unat v - 2288)]"
      by (simp add: varint_table_def varint_form_def)
    ultimately show ?thesis by (simp only: h1 h2)
  next
    case 4
    with unat_u64_less [of v] show ?thesis
      by (simp add: varint_def varint_table_def varint_form_def le
          ucast_drop_bit_byte)
  qed
qed


lemma byte_of_nat_less: "a < b \<Longrightarrow> b < 256 \<Longrightarrow> (of_nat a :: byte) < of_nat b"
  by (simp add: word_less_nat_alt unat_of_nat)

lemma bytes_less_Cons:
  "bytes_less (x # xs) (y # ys) = (x < y \<or> (x = y \<and> bytes_less xs ys))"
  by simp

lemma mod_Suc_div:
  fixes x :: nat
  shows "(x mod 256 ^ Suc k) div 256 ^ k = (x div 256 ^ k) mod 256"
proof -
  have "x mod (256 ^ k * 256) = 256 ^ k * (x div 256 ^ k mod 256) + x mod 256 ^ k"
    by (rule mod_mult2_eq)
  then have "(x mod 256 ^ Suc k) div 256 ^ k =
             (256 ^ k * (x div 256 ^ k mod 256) + x mod 256 ^ k) div 256 ^ k"
    by (simp add: mult.commute)
  also have "\<dots> = x div 256 ^ k mod 256"
    by simp
  finally show ?thesis .
qed

lemma be_bytes_cong:
  "x mod 256 ^ k = y mod 256 ^ k \<Longrightarrow> be_bytes k x = be_bytes k y"
proof (induction k arbitrary: x y)
  case 0
  show ?case by simp
next
  case (Suc k)
  have "x mod 256 ^ k = (x mod 256 ^ Suc k) mod 256 ^ k"
    by (simp add: mod_mod_cancel)
  also have "\<dots> = (y mod 256 ^ Suc k) mod 256 ^ k" by (simp only: Suc.prems)
  also have "\<dots> = y mod 256 ^ k" by (simp add: mod_mod_cancel)
  finally have tl: "be_bytes k x = be_bytes k y" by (rule Suc.IH)
  have "(x div 256 ^ k) mod 256 = (x mod 256 ^ Suc k) div 256 ^ k"
    by (simp only: mod_Suc_div)
  also have "\<dots> = (y mod 256 ^ Suc k) div 256 ^ k" by (simp only: Suc.prems)
  also have "\<dots> = (y div 256 ^ k) mod 256" by (simp only: mod_Suc_div)
  finally have "(of_nat ((x div 256 ^ k) mod 256) :: byte) = of_nat ((y div 256 ^ k) mod 256)"
    by simp
  then have "(of_nat (x div 256 ^ k) :: byte) = of_nat (y div 256 ^ k)"
    by (simp only: byte_of_nat_mod)
  with tl show ?case by simp
qed

lemma div_mod_lex:
  fixes x y d :: nat
  assumes "x < y" and "0 < d"
  shows "x div d < y div d \<or> (x div d = y div d \<and> x mod d < y mod d)"
proof (cases "x div d < y div d")
  case True
  then show ?thesis by simp
next
  case False
  from assms(1) have "x div d \<le> y div d" by (simp add: div_le_mono)
  with False have e: "x div d = y div d" by simp
  have "x = d * (x div d) + x mod d" "y = d * (y div d) + y mod d" by simp_all
  with e assms(1) have "x mod d < y mod d" by (metis add_less_cancel_left)
  with e show ?thesis by simp
qed

lemma be_bytes_less:
  "x < y \<Longrightarrow> y < 256 ^ k \<Longrightarrow> bytes_less (be_bytes k x) (be_bytes k y)"
proof (induction k arbitrary: x y)
  case 0
  then show ?case by simp
next
  case (Suc k)
  from Suc.prems have hy: "y div 256 ^ k < 256"
    by (simp add: less_mult_imp_div_less mult.commute)
  from div_mod_lex [OF Suc.prems(1), of "256 ^ k"]
  consider "x div 256 ^ k < y div 256 ^ k"
    | "x div 256 ^ k = y div 256 ^ k" "x mod 256 ^ k < y mod 256 ^ k"
    by auto
  then show ?case
  proof cases
    case 1
    from byte_of_nat_less [OF 1 hy]
    have "(of_nat (x div 256 ^ k) :: byte) < of_nat (y div 256 ^ k)" .
    then show ?thesis by simp
  next
    case 2
    have "bytes_less (be_bytes k (x mod 256 ^ k)) (be_bytes k (y mod 256 ^ k))"
      by (rule Suc.IH [OF 2(2)]) simp
    moreover have "be_bytes k (x mod 256 ^ k) = be_bytes k x"
      "be_bytes k (y mod 256 ^ k) = be_bytes k y"
      by (rule be_bytes_cong, simp)+
    ultimately show ?thesis using 2(1) by simp
  qed
qed

lemma varint_form_mono:
  assumes "m < n" and "n < 2 ^ 64"
  shows "case varint_form m of (l1, k1, p1) \<Rightarrow> case varint_form n of (l2, k2, p2) \<Rightarrow>
           l2 < 256 \<and> (l1 < l2 \<or> (l1 = l2 \<and> k1 = k2 \<and> p1 < p2 \<and> p2 < 256 ^ k2))"
proof -
  have r2: "241 + (n - 240) div 256 < 249" if "n \<le> 2287" using that by simp
  have lex: "(m - 240) div 256 < (n - 240) div 256 \<or>
      ((m - 240) div 256 = (n - 240) div 256 \<and> (m - 240) mod 256 < (n - 240) mod 256)"
    if "240 < m" using div_mod_lex [of "m - 240" "n - 240" 256] assms(1) that by auto
  show ?thesis
    using assms r2 lex
    by (auto simp: varint_form_def split: if_splits)
qed

lemma varint_table_less:
  assumes "m < n" and "n < 2 ^ 64"
  shows "bytes_less (varint_table m) (varint_table n)"
proof -
  obtain l1 k1 p1 where f1: "varint_form m = (l1, k1, p1)" by (cases "varint_form m")
  obtain l2 k2 p2 where f2: "varint_form n = (l2, k2, p2)" by (cases "varint_form n")
  from varint_form_mono [OF assms] f1 f2
  have l2: "l2 < 256" and c: "l1 < l2 \<or> (l1 = l2 \<and> k1 = k2 \<and> p1 < p2 \<and> p2 < 256 ^ k2)"
    by auto
  from c show ?thesis
  proof
    assume "l1 < l2"
    with l2 have "(of_nat l1 :: byte) < of_nat l2" by (intro byte_of_nat_less)
    then show ?thesis by (simp add: varint_table_def f1 f2)
  next
    assume e: "l1 = l2 \<and> k1 = k2 \<and> p1 < p2 \<and> p2 < 256 ^ k2"
    then have "bytes_less (be_bytes k2 p1) (be_bytes k2 p2)"
      by (intro be_bytes_less) auto
    with e show ?thesis by (simp add: varint_table_def f1 f2)
  qed
qed

lemma varint_less:
  "u < v \<Longrightarrow> bytes_less (varint u) (varint v)"
  by (simp only: varint_eq_table)
     (rule varint_table_less, simp add: word_less_nat_alt, rule unat_u64_less)

lemma bytes_less_append: "bytes_less (p @ xs) (p @ ys) = bytes_less xs ys"
  by (induction p) auto

lemma low8: "(ucast (ucast (x :: u64) :: byte) :: u64) = take_bit 8 x"
  by (rule bit_word_eqI) (auto simp: bit_simps)

lemma take_bit_step:
  "push_bit n (take_bit 8 (drop_bit n v)) OR take_bit n v = take_bit (n + 8) (v :: u64)"
  by (rule bit_word_eqI) (auto simp: bit_simps)

lemma le_or_take_bit: "le_or k v = take_bit (8 * k) v"
proof (induction k)
  case 0
  show ?case by simp
next
  case (Suc k)
  have "le_or (Suc k) v = push_bit (8 * k) (take_bit 8 (drop_bit (8 * k) v)) OR take_bit (8 * k) v"
    by (simp add: Suc.IH)
  also have "\<dots> = take_bit (8 * k + 8) v" by (rule take_bit_step)
  finally show ?case by (simp add: add.commute)
qed

lemma le_or_self: "v < 2 ^ (8 * k) \<Longrightarrow> le_or k v = v"
  by (simp add: le_or_take_bit take_bit_eq_mask less_mask_eq)

lemma le_or_8: "le_or 8 v = v"
  by (simp only: le_or_take_bit) (rule take_bit_word_eq_self, simp)

lemma le_or_numeral:
  "le_or (numeral k) v =
     push_bit (8 * pred_numeral k) (take_bit 8 (drop_bit (8 * pred_numeral k) v)) OR
     le_or (pred_numeral k) v"
  by (simp add: numeral_eq_Suc)

lemma le_or_1: "le_or 1 v = take_bit 8 v"
  using le_or.simps(2) [of 0 v] by simp

lemma reassemble_3:
  assumes "unat (v :: u64) < 2 ^ 24"
  shows "push_bit 16 (ucast (ucast (drop_bit 16 v) :: byte)) OR
     push_bit 8 (ucast (ucast (drop_bit 8 v) :: byte)) OR
     ucast (ucast v :: byte) = v"
proof -
  from assms have "v < 2 ^ (8 * 3)" by (simp add: word_less_nat_alt)
  from le_or_self [OF this] show ?thesis by (simp add: low8 le_or_numeral le_or_1)
qed

lemma reassemble_4:
  assumes "unat (v :: u64) < 2 ^ 32"
  shows "push_bit 24 (ucast (ucast (drop_bit 24 v) :: byte)) OR
     push_bit 16 (ucast (ucast (drop_bit 16 v) :: byte)) OR
     push_bit 8 (ucast (ucast (drop_bit 8 v) :: byte)) OR
     ucast (ucast v :: byte) = v"
proof -
  from assms have "v < 2 ^ (8 * 4)" by (simp add: word_less_nat_alt)
  from le_or_self [OF this] show ?thesis by (simp add: low8 le_or_numeral le_or_1)
qed

lemma reassemble_5:
  assumes "unat (v :: u64) < 2 ^ 40"
  shows "push_bit 32 (ucast (ucast (drop_bit 32 v) :: byte)) OR
     push_bit 24 (ucast (ucast (drop_bit 24 v) :: byte)) OR
     push_bit 16 (ucast (ucast (drop_bit 16 v) :: byte)) OR
     push_bit 8 (ucast (ucast (drop_bit 8 v) :: byte)) OR
     ucast (ucast v :: byte) = v"
proof -
  from assms have "v < 2 ^ (8 * 5)" by (simp add: word_less_nat_alt)
  from le_or_self [OF this] show ?thesis by (simp add: low8 le_or_numeral le_or_1)
qed

lemma reassemble_6:
  assumes "unat (v :: u64) < 2 ^ 48"
  shows "push_bit 40 (ucast (ucast (drop_bit 40 v) :: byte)) OR
     push_bit 32 (ucast (ucast (drop_bit 32 v) :: byte)) OR
     push_bit 24 (ucast (ucast (drop_bit 24 v) :: byte)) OR
     push_bit 16 (ucast (ucast (drop_bit 16 v) :: byte)) OR
     push_bit 8 (ucast (ucast (drop_bit 8 v) :: byte)) OR
     ucast (ucast v :: byte) = v"
proof -
  from assms have "v < 2 ^ (8 * 6)" by (simp add: word_less_nat_alt)
  from le_or_self [OF this] show ?thesis by (simp add: low8 le_or_numeral le_or_1)
qed

lemma reassemble_7:
  assumes "unat (v :: u64) < 2 ^ 56"
  shows "push_bit 48 (ucast (ucast (drop_bit 48 v) :: byte)) OR
     push_bit 40 (ucast (ucast (drop_bit 40 v) :: byte)) OR
     push_bit 32 (ucast (ucast (drop_bit 32 v) :: byte)) OR
     push_bit 24 (ucast (ucast (drop_bit 24 v) :: byte)) OR
     push_bit 16 (ucast (ucast (drop_bit 16 v) :: byte)) OR
     push_bit 8 (ucast (ucast (drop_bit 8 v) :: byte)) OR
     ucast (ucast v :: byte) = v"
proof -
  from assms have "v < 2 ^ (8 * 7)" by (simp add: word_less_nat_alt)
  from le_or_self [OF this] show ?thesis by (simp add: low8 le_or_numeral le_or_1)
qed

lemma reassemble_8:
  "push_bit 56 (ucast (ucast (drop_bit 56 v) :: byte)) OR
     push_bit 48 (ucast (ucast (drop_bit 48 v) :: byte)) OR
     push_bit 40 (ucast (ucast (drop_bit 40 v) :: byte)) OR
     push_bit 32 (ucast (ucast (drop_bit 32 v) :: byte)) OR
     push_bit 24 (ucast (ucast (drop_bit 24 v) :: byte)) OR
     push_bit 16 (ucast (ucast (drop_bit 16 v) :: byte)) OR
     push_bit 8 (ucast (ucast (drop_bit 8 v) :: byte)) OR
     ucast (ucast v :: byte) = (v :: u64)"
  using le_or_8 [of v] by (simp add: low8 le_or_numeral le_or_1)

lemma ucast_of_nat_byte: "(ucast (of_nat x :: byte) :: u64) = of_nat (x mod 256)"
proof -
  have "(ucast (of_nat x :: byte) :: u64) = of_nat (unat (of_nat x :: byte))"
    by (simp only: of_nat_unat)
  also have "unat (of_nat x :: byte) = x mod 256" by (simp add: unat_of_nat)
  finally show ?thesis .
qed

lemma split_256: "(of_nat m :: u64) = 256 * of_nat (m div 256) + of_nat (m mod 256)"
proof -
  have "(of_nat m :: u64) = of_nat (256 * (m div 256) + m mod 256)" by simp
  also have "\<dots> = 256 * of_nat (m div 256) + of_nat (m mod 256)"
    by (simp only: of_nat_add of_nat_mult of_nat_numeral)
  finally show ?thesis .
qed

lemma asm16:
  assumes "v < 2 ^ 16"
  shows "256 * (ucast (ucast (drop_bit 8 v) :: byte) :: u64) + ucast (ucast (v AND 0xff) :: byte) = v"
proof -
  define m where "m = unat v"
  have m: "m < 65536" using assms by (simp add: m_def word_less_nat_alt)
  have a: "(ucast (ucast (drop_bit 8 v) :: byte) :: u64) = of_nat (m div 256)"
    using m by (simp only: ucast_drop_bit_byte ucast_of_nat_byte m_def [symmetric]) simp
  have "(ucast (ucast (v AND 0xff) :: byte) :: u64) = ucast (of_nat m :: byte)"
    by (simp only: ucast_and_ff m_def of_nat_unat)
  then have b: "(ucast (ucast (v AND 0xff) :: byte) :: u64) = of_nat (m mod 256)"
    by (simp only: ucast_of_nat_byte)
  have "256 * (of_nat (m div 256) :: u64) + of_nat (m mod 256) = of_nat m"
    by (rule split_256 [symmetric])
  also have "\<dots> = v" by (simp add: m_def)
  finally show ?thesis by (simp only: a b)
qed

lemma asm11:
  assumes "v < 2048"
  shows "256 * (ucast (241 + ucast (drop_bit 8 v) :: byte) - 241 :: u64) + ucast (ucast (v AND 0xff) :: byte) = v"
proof -
  define m where "m = unat v"
  have m: "m < 2048" using assms by (simp add: m_def word_less_nat_alt)
  have "(241 + ucast (drop_bit 8 v) :: byte) = of_nat (241 + m div 256)"
    by (simp only: ucast_drop_bit_byte m_def [symmetric]) simp
  then have "(ucast (241 + ucast (drop_bit 8 v) :: byte) :: u64) = of_nat ((241 + m div 256) mod 256)"
    by (simp only: ucast_of_nat_byte)
  also have "(241 + m div 256) mod 256 = 241 + m div 256" using m by simp
  finally have a: "(ucast (241 + ucast (drop_bit 8 v) :: byte) - 241 :: u64) = of_nat (m div 256)"
    by simp
  have "(ucast (ucast (v AND 0xff) :: byte) :: u64) = ucast (of_nat m :: byte)"
    by (simp only: ucast_and_ff m_def of_nat_unat)
  then have b: "(ucast (ucast (v AND 0xff) :: byte) :: u64) = of_nat (m mod 256)"
    by (simp only: ucast_of_nat_byte)
  have "256 * (of_nat (m div 256) :: u64) + of_nat (m mod 256) = of_nat m"
    by (rule split_256 [symmetric])
  also have "\<dots> = v" by (simp add: m_def)
  finally show ?thesis by (simp only: a b)
qed


lemma reader_init_rdr_at: "reader_init s (int (length s)) = rdr_at s 0"
  by (simp add: reader_init_def rdr_at_def)

lemma rdr_at_skip:
  "(rdr_at s 0)\<lparr>rdr_pos := rdr_pos (rdr_at s 0) + int n\<rparr> = rdr_at s n"
  by (simp add: rdr_at_def)

lemma rdr_at_sel [simp]:
  "rdr_pos (rdr_at s i) = int i" "rdr_size (rdr_at s i) = int (length s)"
  "rdr_p (rdr_at s i) = s"
  by (simp_all add: rdr_at_def)

lemma reader_getc_at:
  "reader_getc (rdr_at s i) = (if i < length s then Some (s ! i, rdr_at s (i + 1)) else None)"
  by (simp add: reader_getc_def rdr_at_def)

lemma reader_getchar_at:
  "reader_getchar (rdr_at s i) =
     (if i < length s then Inr (ucast (s ! i), rdr_at s (i + 1)) else Inl Abort)"
  by (simp add: reader_getchar_def rdr_at_def)

lemma reader_ensure_at:
  "reader_ensure (rdr_at s i) n =
     (if int (length s) - int i < n then Inl ValueError else Inr ())"
  by (simp add: reader_ensure_def)

lemma bindE_simps [simp]:
  "bindE (Inr x) f = f x" "bindE (Inl e) f = Inl e"
  by (simp_all add: bindE_def)

lemma nth_mid: "(pre @ xs @ rest) ! (length pre + k) = (xs @ rest) ! k"
  by (simp add: nth_append)

lemma ucast_byte: "(ucast (v :: u64) :: byte) = of_nat (unat v)"
  by simp

lemma nth_pre_Sucs [simp]:
  "(pre @ xs) ! Suc ((length pre)) = xs ! 1"
  "(pre @ xs) ! Suc (Suc ((length pre))) = xs ! 2"
  "(pre @ xs) ! Suc (Suc (Suc ((length pre)))) = xs ! 3"
  "(pre @ xs) ! Suc (Suc (Suc (Suc ((length pre))))) = xs ! 4"
  "(pre @ xs) ! Suc (Suc (Suc (Suc (Suc ((length pre)))))) = xs ! 5"
  "(pre @ xs) ! Suc (Suc (Suc (Suc (Suc (Suc ((length pre))))))) = xs ! 6"
  "(pre @ xs) ! Suc (Suc (Suc (Suc (Suc (Suc (Suc ((length pre)))))))) = xs ! 7"
  "(pre @ xs) ! Suc (Suc (Suc (Suc (Suc (Suc (Suc (Suc ((length pre))))))))) = xs ! 8"
  using nth_append_length_plus [of pre xs 1] nth_append_length_plus [of pre xs 2]
    nth_append_length_plus [of pre xs 3] nth_append_length_plus [of pre xs 4]
    nth_append_length_plus [of pre xs 5] nth_append_length_plus [of pre xs 6]
    nth_append_length_plus [of pre xs 7] nth_append_length_plus [of pre xs 8]
  by (simp_all add: eval_nat_numeral del: nth_append_length_plus)

lemma read_plain_int_varint:
  assumes s: "s = pre @ varint v @ rest"
  shows "read_plain_int E (rdr_at s (length pre)) =
         Inr (if v \<le> 240 then uninit E (int (length pre)) else v,
              rdr_at s (length pre + length (varint v)))"
proof -
  note le = u64_le_numerals [of v]
  note rd = read_plain_int_def reader_getc_at reader_getchar_at reader_ensure_at Let_def
  consider "unat v \<le> 240" | "240 < unat v" "unat v \<le> 2287"
    | "2287 < unat v" "unat v \<le> 67823"
    | "67823 < unat v" "unat v < 2 ^ 24"
    | "\<not> unat v < 2 ^ 24" "unat v < 2 ^ 32"
    | "\<not> unat v < 2 ^ 32" "unat v < 2 ^ 40"
    | "\<not> unat v < 2 ^ 40" "unat v < 2 ^ 48"
    | "\<not> unat v < 2 ^ 48" "unat v < 2 ^ 56"
    | "\<not> unat v < 2 ^ 56"
    by linarith
  then show ?thesis
  proof cases
    case 1
    then have vv: "varint v = [ucast v]" by (simp add: varint_def le)
    from 1 have "(ucast v :: byte) \<le> 240"
      by (simp add: word_le_nat_alt unat_of_nat ucast_byte del: of_nat_unat)
    with 1 show ?thesis by (simp add: rd s vv le)
  next
    case 2
    then have u: "unat (v - 240) = unat v - 240"
      using unat_sub_const [of 240 v] by simp
    from 2 have vv: "varint v = [241 + ucast (drop_bit 8 (v - 240)), ucast ((v - 240) AND 0xff)]"
      by (simp add: varint_def le)
    have h1: "(241 + ucast (drop_bit 8 (v - 240)) :: byte) =
              of_nat (241 + (unat v - 240) div 256)"
      by (simp only: ucast_drop_bit_byte u) simp
    from 2 have "(241 + (unat v - 240) div 256) mod 2 ^ LENGTH(8) = 241 + (unat v - 240) div 256"
      by simp
    then have ld: "unat (241 + ucast (drop_bit 8 (v - 240)) :: byte) = 241 + (unat v - 240) div 256"
      by (simp only: h1 unat_of_nat)
    from 2 ld have c: "\<not> (241 + ucast (drop_bit 8 (v - 240)) :: byte) \<le> 240"
      "(241 + ucast (drop_bit 8 (v - 240)) :: byte) \<le> 248"
      by (simp_all add: word_le_nat_alt)
    from 2 u have "v - 240 < 2048" by (simp add: word_less_nat_alt)
    note a11 = asm11 [OF this]
    have "240 + 256 * (ucast (241 + ucast (drop_bit 8 (v - 240)) :: byte) - 241 :: u64) +
          ucast (ucast ((v - 240) AND 0xff) :: byte) =
          240 + (256 * (ucast (241 + ucast (drop_bit 8 (v - 240)) :: byte) - 241 :: u64) +
          ucast (ucast ((v - 240) AND 0xff) :: byte))"
      by (simp only: add.assoc)
    also have "\<dots> = 240 + (v - 240)" by (simp only: a11)
    also have "\<dots> = v" by simp
    finally have "240 + 256 * (ucast (241 + ucast (drop_bit 8 (v - 240)) :: byte) - 241 :: u64) +
          ucast (ucast ((v - 240) AND 0xff) :: byte) = v" .
    with 2 c show ?thesis by (simp add: rd s vv le)
  next
    case 3
    then have u: "unat (v - 2288) = unat v - 2288"
      using unat_sub_const [of 2288 v] by simp
    from 3 have vv: "varint v = [0xf9, ucast (drop_bit 8 (v - 2288)), ucast ((v - 2288) AND 0xff)]"
      by (simp add: varint_def le)
    from 3 u have "v - 2288 < 2 ^ 16" by (simp add: word_less_nat_alt)
    note a16 = asm16 [OF this]
    have "2288 + 256 * (ucast (ucast (drop_bit 8 (v - 2288)) :: byte) :: u64) +
          ucast (ucast ((v - 2288) AND 0xff) :: byte) =
          2288 + (256 * (ucast (ucast (drop_bit 8 (v - 2288)) :: byte) :: u64) +
          ucast (ucast ((v - 2288) AND 0xff) :: byte))"
      by (simp only: add.assoc)
    also have "\<dots> = 2288 + (v - 2288)" by (simp only: a16)
    also have "\<dots> = v" by simp
    finally have "2288 + 256 * (ucast (ucast (drop_bit 8 (v - 2288)) :: byte) :: u64) +
          ucast (ucast ((v - 2288) AND 0xff) :: byte) = v" .
    with 3 show ?thesis by (simp add: rd s vv le)
  next
    case 4
    then have vv: "varint v = [0xfa, ucast (drop_bit 16 v), ucast (drop_bit 8 v), ucast v]"
      by (simp add: varint_def le)
    from 4 show ?thesis by (simp add: rd s vv le reassemble_3)
  next
    case 5
    then have vv: "varint v =
        [0xfb, ucast (drop_bit 24 v), ucast (drop_bit 16 v), ucast (drop_bit 8 v), ucast v]"
      by (simp add: varint_def le)
    from 5 show ?thesis by (simp add: rd s vv le reassemble_4)
  next
    case 6
    then have vv: "varint v =
        [0xfc, ucast (drop_bit 32 v), ucast (drop_bit 24 v), ucast (drop_bit 16 v),
         ucast (drop_bit 8 v), ucast v]"
      by (simp add: varint_def le)
    from 6 show ?thesis by (simp add: rd s vv le reassemble_5)
  next
    case 7
    then have vv: "varint v =
        [0xfd, ucast (drop_bit 40 v), ucast (drop_bit 32 v), ucast (drop_bit 24 v),
         ucast (drop_bit 16 v), ucast (drop_bit 8 v), ucast v]"
      by (simp add: varint_def le)
    from 7 show ?thesis by (simp add: rd s vv le reassemble_6)
  next
    case 8
    then have vv: "varint v =
        [0xfe, ucast (drop_bit 48 v), ucast (drop_bit 40 v), ucast (drop_bit 32 v),
         ucast (drop_bit 24 v), ucast (drop_bit 16 v), ucast (drop_bit 8 v), ucast v]"
      by (simp add: varint_def le)
    from 8 show ?thesis by (simp add: rd s vv le reassemble_7)
  next
    case 9
    then have vv: "varint v =
        [0xff, ucast (drop_bit 56 v), ucast (drop_bit 48 v), ucast (drop_bit 40 v),
         ucast (drop_bit 32 v), ucast (drop_bit 24 v), ucast (drop_bit 16 v),
         ucast (drop_bit 8 v), ucast v]"
      by (simp add: varint_def le)
    from 9 show ?thesis by (simp add: rd s vv le reassemble_8)
  qed
qed

subsection \<open>Claims about the integer codec\<close>

declare writer_ensure.simps [code]

lemma py_pack_int_table:
  "\<forall>n. mem E n \<Longrightarrow> py_pack_int E prefix v = Some (prefix @ varint_table (unat v))"
  by (simp add: py_pack_int_bytes varint_eq_table)

lemma read_plain_int_py_pack_int:
  assumes "\<forall>n. mem E n"
  shows "\<exists>bs. py_pack_int E [] v = Some bs \<and>
           read_plain_int E (reader_init bs (int (length bs))) =
             Inr (if v \<le> 240 then uninit E 0 else v, rdr_at bs (length bs))"
proof -
  from read_plain_int_varint [of "varint v" "[]" v "[]" E]
  have "read_plain_int E (rdr_at (varint v) 0) =
        Inr (if v \<le> 240 then uninit E 0 else v, rdr_at (varint v) (length (varint v)))"
    by simp
  with py_pack_int_bytes [OF assms, of "[]" v] show ?thesis
    by (simp add: reader_init_rdr_at)
qed

text \<open>
  C7 (varint order preservation). For unsigned 64-bit integers \<open>u < v\<close>, the encoding
  \<^verbatim>\<open>pack_int\<close> gives \<open>u\<close> compares strictly less than the one it gives \<open>v\<close> under unsigned
  byte-wise comparison (whatever the common prefix, and provided the allocator does not
  fail).
\<close>

theorem varint_order_preserved:
  assumes "\<forall>n. mem E n" and "u < v"
  shows "\<exists>bu bv. py_pack_int E prefix u = Some bu \<and> py_pack_int E prefix v = Some bv \<and>
                 bytes_less bu bv"
  using assms by (simp add: py_pack_int_bytes bytes_less_append varint_less)

theorem varint_order_preserved_witness:
  "(\<forall>n. mem (sample_env 0) n) \<and> (2287 :: u64) < 2288 \<and>
   py_pack_int (sample_env 0) [] 2287 = Some [248, 255] \<and>
   py_pack_int (sample_env 0) [] 2288 = Some [249, 0, 0] \<and>
   bytes_less [248, 255] [249, 0, 0]"
proof -
  have m: "\<forall>n. mem (sample_env 0) n" by (simp add: sample_env_def)
  have lt: "(2287 :: u64) < 2288" by simp
  have a: "py_pack_int (sample_env 0) [] 2287 = Some [248, 255]" by code_simp
  have b: "py_pack_int (sample_env 0) [] 2288 = Some [249, 0, 0]" by code_simp
  from varint_order_preserved [OF m lt, of "[]"] m a b show ?thesis by simp
qed

text \<open>
  C1 (varint round trip), at the value 5. \<^verbatim>\<open>pack_int\<close> emits the single byte \<open>05\<close> of the
  table, and \<^verbatim>\<open>read_plain_int\<close> on that byte succeeds with the contents of its unassigned
  local \<^verbatim>\<open>v\<close> (here \<open>junk\<close>), not with 5: the branch for a lead byte up to 240 stores the
  byte in \<^verbatim>\<open>*u64\<close>, and the final \<^verbatim>\<open>*u64 = v\<close> overwrites it.
\<close>

theorem read_plain_int_loses_small_values:
  "py_pack_int (sample_env junk) [] 5 = Some [5] \<and>
   read_plain_int (sample_env junk) (reader_init [5] 1) =
     Inr (junk, \<lparr>rdr_p = [5], rdr_size = 1, rdr_pos = 1\<rparr>)"
proof -
  have "\<forall>n. mem (sample_env junk) n" by (simp add: sample_env_def)
  then have "py_pack_int (sample_env junk) [] 5 = Some ([] @ varint 5)"
    by (rule py_pack_int_bytes)
  moreover have "varint 5 = [5]" by (simp add: varint_def)
  moreover have "read_plain_int (sample_env junk) (reader_init [5] 1) =
     Inr (junk, \<lparr>rdr_p = [5], rdr_size = 1, rdr_pos = 1\<rparr>)"
    by (simp add: read_plain_int_def reader_getc_def reader_init_def sample_env_def)
  ultimately show ?thesis by simp
qed

subsection \<open>The string codec\<close>

lemma wrote_trans:
  "wrote w bs (Some w') \<Longrightarrow> wrote w' cs r \<Longrightarrow> wrote w (bs @ cs) r"
  by (auto simp: wrote_def)

lemma write_str_loop_wrote:
  assumes "\<forall>n. mem E n"
  shows "writer_slack w \<Longrightarrow> enc_loop p shift trailer = (bs, s, t) \<Longrightarrow>
         \<exists>w'. write_str_loop E w p shift trailer = Some (w', s, t) \<and> wrote w bs (Some w')"
proof (induction p arbitrary: w shift trailer bs)
  case Nil
  then show ?case by (simp add: wrote_Some_nil)
next
  case (Cons ob p)
  let ?b = "0x80 OR trailer OR drop_bit shift ob"
  from wrote_putc [OF assms Cons.prems(1), of ?b] obtain w1 where
    p1: "writer_putc E w ?b = Some w1" and s1: "writer_slack w1"
    and w1: "wrote w [?b] (Some w1)"
    by (auto simp: wrote_def)
  show ?case
  proof (cases "shift < 7")
    case True
    with Cons.prems(2) obtain bs' where
      e: "enc_loop p (shift + 1) (push_bit (7 - shift) ob) = (bs', s, t)" and bs: "bs = ?b # bs'"
      by (auto split: prod.splits)
    from Cons.IH [OF s1 e] obtain w' where
      l: "write_str_loop E w1 p (shift + 1) (push_bit (7 - shift) ob) = Some (w', s, t)"
      and w': "wrote w1 bs' (Some w')" by blast
    from wrote_trans [OF w1 w'] l p1 True bs show ?thesis by simp
  next
    case False
    with Cons.prems(2) obtain bs' where
      e: "enc_loop p 1 0 = (bs', s, t)" and bs: "bs = ?b # (0x80 OR ob) # bs'"
      by (auto split: prod.splits)
    from wrote_putc [OF assms s1, of "0x80 OR ob"] obtain w2 where
      p2: "writer_putc E w1 (0x80 OR ob) = Some w2" and s2: "writer_slack w2"
      and w2: "wrote w1 [0x80 OR ob] (Some w2)"
      by (auto simp: wrote_def)
    from Cons.IH [OF s2 e] obtain w' where
      l: "write_str_loop E w2 p 1 0 = Some (w', s, t)"
      and w': "wrote w2 bs' (Some w')" by blast
    from wrote_trans [OF wrote_trans [OF w1 w2] w'] l p1 p2 False bs show ?thesis by simp
  qed
qed

lemma wrote_enc_fin:
  assumes "\<forall>n. mem E n" and "writer_slack w"
  shows "wrote w (enc_fin shift trailer)
     (if shift > 1 then
        (case writer_putc E w trailer of
           None \<Rightarrow> None
         | Some wtr \<Rightarrow> if trailer \<noteq> 0 then writer_putc E wtr 0 else Some wtr)
      else writer_putc E w 0)"
proof (cases "shift > 1")
  case True
  have "wrote w ([trailer] @ (if trailer \<noteq> 0 then [0] else []))
     (case writer_putc E w trailer of
           None \<Rightarrow> None
         | Some wtr \<Rightarrow> if trailer \<noteq> 0 then writer_putc E wtr 0 else Some wtr)"
    by (rule wrote_bind [OF wrote_putc [OF assms]])
       (simp add: wrote_putc [OF assms(1)] wrote_Some_nil)
  with True show ?thesis by (simp add: enc_fin_def)
next
  case False
  with wrote_putc [OF assms, of 0] show ?thesis by (simp add: enc_fin_def)
qed

lemma wrote_write_str:
  assumes "\<forall>n. mem E n" and "writer_slack w"
  shows "wrote w (tag_bytes kind @ str_bytes p) (write_str E w p kind)"
  unfolding write_str_def
proof (rule wrote_bind [OF wrote_tag [OF assms]])
  fix w1 assume s1: "writer_slack w1"
  obtain bs s t where e: "enc_loop p 1 0 = (bs, s, t)" by (cases "enc_loop p 1 0")
  from write_str_loop_wrote [OF assms(1) s1 e] obtain w2 where
    l: "write_str_loop E w1 p 1 0 = Some (w2, s, t)" and w2: "wrote w1 bs (Some w2)" by blast
  from w2 have s2: "writer_slack w2" by (auto simp: wrote_def)
  from wrote_trans [OF w2 wrote_enc_fin [OF assms(1) s2, of s t]] l e
  show "wrote w1 (str_bytes p)
          (case write_str_loop E w1 p 1 0 of None \<Rightarrow> None
           | Some (wtr, shift, trailer) \<Rightarrow>
               if 1 < shift
               then case writer_putc E wtr trailer of None \<Rightarrow> None
                    | Some wtr \<Rightarrow> if trailer \<noteq> 0 then writer_putc E wtr 0 else Some wtr
               else writer_putc E wtr 0)"
    by (simp add: str_bytes_def)
qed

lemma byte_80: "(0x80 :: byte) = push_bit 7 1"
  by simp

lemma bit7_or: "bit ((0x80 :: byte) OR x) 7"
  by (simp only: byte_80) (simp add: bit_simps)

lemma bit7_nonzero: "bit (b :: byte) 7 \<Longrightarrow> b \<noteq> 0"
  by auto

lemma enc_loop_high:
  "enc_loop p shift trailer = (bs, s, t) \<Longrightarrow> list_all (\<lambda>b. bit b 7) bs"
proof (induction p arbitrary: shift trailer bs)
  case Nil
  then show ?case by simp
next
  case (Cons ob p)
  show ?case
  proof (cases "shift < 7")
    case True
    with Cons.prems obtain bs' where
      e: "enc_loop p (shift + 1) (push_bit (7 - shift) ob) = (bs', s, t)"
      and bs: "bs = (0x80 OR trailer OR drop_bit shift ob) # bs'"
      by (auto split: prod.splits)
    from Cons.IH [OF e] bs show ?thesis by (simp add: bit7_or)
  next
    case False
    with Cons.prems obtain bs' where
      e: "enc_loop p 1 0 = (bs', s, t)"
      and bs: "bs = (0x80 OR trailer OR drop_bit shift ob) # (0x80 OR ob) # bs'"
      by (auto split: prod.splits)
    from Cons.IH [OF e] bs show ?thesis by (simp add: bit7_or)
  qed
qed

lemma str_bytes_shape:
  "\<exists>body. str_bytes p = body @ [0] \<and> 0 \<notin> set body \<and> list_all (\<lambda>b. bit b 7) (butlast body)"
proof -
  obtain bs s t where e: "enc_loop p 1 0 = (bs, s, t)" by (cases "enc_loop p 1 0")
  from enc_loop_high [OF e] have h: "list_all (\<lambda>b. bit b 7) bs" .
  then have nz: "0 \<notin> set bs" by (auto simp: list_all_iff)
  show ?thesis
  proof (cases "s > 1 \<and> t \<noteq> 0")
    case True
    with e have "str_bytes p = (bs @ [t]) @ [0]" by (simp add: str_bytes_def enc_fin_def)
    moreover from True nz have "0 \<notin> set (bs @ [t])" by auto
    moreover from h have "list_all (\<lambda>b. bit b 7) (butlast (bs @ [t]))" by simp
    ultimately show ?thesis by blast
  next
    case False
    with e have "str_bytes p = bs @ [0]" by (auto simp: str_bytes_def enc_fin_def)
    moreover from h have "list_all (\<lambda>b. bit b 7) (butlast bs)"
      by (auto simp: list_all_iff dest: in_set_butlastD)
    ultimately show ?thesis using nz by blast
  qed
qed

lemma bit_80: "bit (0x80 :: byte) n \<longleftrightarrow> n = 7"
proof -
  have "(0x80 :: byte) = 2 ^ 7" by simp
  then show ?thesis by (simp only: bit_exp_iff) (auto simp: possible_bit_word)
qed

lemma bit_7f: "bit (0x7f :: byte) n \<longleftrightarrow> n < 7"
proof -
  have "(0x7f :: byte) = mask 7" by (simp add: mask_eq_exp_minus_1)
  then show ?thesis by (simp only: bit_mask_iff) (auto simp: possible_bit_word)
qed

lemmas byte_bits = bit_or_iff bit_and_iff bit_push_bit_iff bit_drop_bit_eq bit_80 bit_7f
  possible_bit_word bit_0_eq o_apply

lemma inv_step:
  assumes "1 \<le> s" "s \<le> 6"
  shows "push_bit s ((0x80 :: byte) OR push_bit (8 - s) x OR drop_bit s ob) = push_bit s (drop_bit s ob)"
proof (rule bit_word_eqI)
  fix n assume "n < LENGTH(8)"
  with assms show "bit (push_bit s ((0x80 :: byte) OR push_bit (8 - s) x OR drop_bit s ob)) n
      = bit (push_bit s (drop_bit s ob)) n"
    by (simp only: byte_bits) auto
qed

lemma inv_first:
  shows "push_bit 1 ((0x80 :: byte) OR 0 OR drop_bit 1 ob) = push_bit 1 (drop_bit 1 ob)"
proof (rule bit_word_eqI)
  fix n assume "n < LENGTH(8)"
  then show "bit (push_bit 1 ((0x80 :: byte) OR 0 OR drop_bit 1 ob)) n
      = bit (push_bit 1 (drop_bit 1 ob)) n"
    by (simp only: byte_bits) auto
qed

lemma byte_bit_bound: "bit (w :: byte) k \<Longrightarrow> k < 8"
  using bit_imp_le_length [of w k] by simp

lemma dec_mid:
  assumes "1 \<le> d" "d \<le> 6" "push_bit d lb = push_bit d (drop_bit d prev)"
  shows "push_bit d lb OR drop_bit (7 - d) (((0x80 :: byte) OR push_bit (7 - d) prev OR drop_bit (d + 1) ob) AND 0x7f) = prev"
proof (rule bit_word_eqI)
  fix n assume n: "n < LENGTH(8)"
  consider "n < d" | "d \<le> n" by linarith
  then show "bit (push_bit d lb OR drop_bit (7 - d) (((0x80 :: byte) OR push_bit (7 - d) prev OR drop_bit (d + 1) ob) AND 0x7f)) n = bit prev n"
  proof cases
    case 1
    with n assms(1,2) show ?thesis
      by (simp only: assms(3) byte_bits) (auto dest: byte_bit_bound)
  next
    case 2
    with n assms(1,2) show ?thesis
      by (simp only: assms(3) byte_bits) (auto dest: byte_bit_bound)
  qed
qed

lemma dec_last:
  assumes "1 \<le> d" "d \<le> 6" "push_bit d lb = push_bit d (drop_bit d prev)"
  shows "push_bit d lb OR drop_bit (7 - d) ((push_bit (7 - d) prev :: byte) AND 0x7f) = prev"
proof (rule bit_word_eqI)
  fix n assume n: "n < LENGTH(8)"
  consider "n < d" | "d \<le> n" by linarith
  then show "bit (push_bit d lb OR drop_bit (7 - d) ((push_bit (7 - d) prev :: byte) AND 0x7f)) n = bit prev n"
  proof cases
    case 1
    with n assms(1,2) show ?thesis
      by (simp only: assms(3) byte_bits) (auto dest: byte_bit_bound)
  next
    case 2
    with n assms(1,2) show ?thesis
      by (simp only: assms(3) byte_bits) (auto dest: byte_bit_bound)
  qed
qed

lemma dec_seven:
  "push_bit 7 ((0x80 :: byte) OR push_bit 1 x OR drop_bit 7 ob) OR drop_bit 0 ((0x80 OR ob) AND 0x7f) = ob"
proof (rule bit_word_eqI)
  fix n assume n: "n < LENGTH(8)"
  then consider "n < 7" | "n = 7" by fastforce
  then show "bit (push_bit 7 ((0x80 :: byte) OR push_bit 1 x OR drop_bit 7 ob) OR drop_bit 0 ((0x80 OR ob) AND 0x7f)) n = bit ob n"
  proof cases
    case 1
    then show ?thesis by (simp only: byte_bits) (auto dest: byte_bit_bound)
  next
    case 2
    then show ?thesis by (simp only: byte_bits) (auto dest: byte_bit_bound)
  qed
qed


lemma or80_nonzero: "(0x80 :: byte) OR x \<noteq> 0"
  using bit7_or [of x] by auto

lemma putc_opt:
  assumes "\<forall>n. mem E n" and "writer_slack w"
  obtains w1 where "writer_putc E w ch = Some w1"
    and "writer_slack w1" and "wtr_bytes w1 = wtr_bytes w @ [ch]"
  using wrote_putc [OF assms, of ch] by (auto simp: wrote_def)

lemma read_str_loop_enc:
  assumes m: "\<forall>n. mem E n"
  shows "writer_slack w \<Longrightarrow> 1 \<le> d \<Longrightarrow> d \<le> 6 \<Longrightarrow>
         push_bit d lb = push_bit d (drop_bit d prev) \<Longrightarrow>
         enc_loop p (d + 1) (push_bit (7 - d) prev) = (bs, s', t') \<Longrightarrow>
         str = pre @ bs @ enc_fin s' t' @ rest \<Longrightarrow>
         \<exists>w'. read_str_loop E (rdr_at str (length pre)) (Some w) lb d =
                (rdr_at str (length pre + length bs + length (enc_fin s' t')), Some w') \<and>
              writer_slack w' \<and>
              wtr_bytes w' = wtr_bytes w @
                (if 1 < s' \<and> t' = 0 then butlast (prev # p) else prev # p)"
proof (induction "length p" arbitrary: p w d lb prev bs pre rule: less_induct)
  case less
  note sl = less.prems(1) and d1 = less.prems(2) and d6 = less.prems(3)
    and inv = less.prems(4) and enc = less.prems(5) and str = less.prems(6)
  let ?t = "push_bit (7 - d) prev :: byte"
  show ?case
  proof (cases p)
    case Nil
    with enc have e: "bs = []" "s' = d + 1" "t' = ?t" by auto
    from d1 e have fin: "enc_fin s' t' = ?t # (if ?t \<noteq> 0 then [0] else [])"
      by (simp add: enc_fin_def)
    show ?thesis
    proof (cases "?t = 0")
      case True
      with str e fin have g: "reader_getc (rdr_at str (length pre)) =
          Some (0, rdr_at str (length pre + 1))"
        by (simp add: reader_getc_at)
      have "read_str_loop E (rdr_at str (length pre)) (Some w) lb d =
            (rdr_at str (length pre + 1), Some w)"
        by (subst read_str_loop.simps) (simp only: g option.case prod.case simp_thms if_True)
      with True e fin sl d1 Nil show ?thesis by simp
    next
      case False
      with str e fin have g: "reader_getc (rdr_at str (length pre)) =
          Some (?t, rdr_at str (length pre + 1))"
        by (simp add: reader_getc_at)
      from str e fin False have g2: "reader_getc (rdr_at str (length pre + 1)) =
          Some (0, rdr_at str (length pre + 2))"
        by (simp add: reader_getc_at)
      have ch: "push_bit d lb OR drop_bit (7 - d) (?t AND 0x7f) = prev"
        by (rule dec_last [OF d1 d6 inv])
      obtain w1 where p1: "writer_putc E w prev = Some w1"
        and s1: "writer_slack w1" and b1: "wtr_bytes w1 = wtr_bytes w @ [prev]"
        by (rule putc_opt [OF m sl])
      have l2: "read_str_loop E (rdr_at str (length pre + 1)) (Some w1) ?t (d + 1) =
            (rdr_at str (length pre + 2), Some w1)"
        by (subst read_str_loop.simps) (simp only: g2 option.case prod.case simp_thms if_True)
      have "read_str_loop E (rdr_at str (length pre)) (Some w) lb d =
            (rdr_at str (length pre + 2), Some w1)"
        using d6 l2
        by (subst read_str_loop.simps)
           (simp only: g option.case prod.case False if_False Let_def ch p1, simp)
      with False e fin s1 b1 d1 Nil show ?thesis by simp
    qed
  next
    case (Cons ob p')
    let ?b = "0x80 OR ?t OR drop_bit (d + 1) ob"
    have ch: "push_bit d lb OR drop_bit (7 - d) (?b AND 0x7f) = prev"
      by (rule dec_mid [OF d1 d6 inv])
    obtain w1 where p1: "writer_putc E w prev = Some w1"
      and s1: "writer_slack w1" and b1: "wtr_bytes w1 = wtr_bytes w @ [prev]"
      by (rule putc_opt [OF m sl])
    have nz: "?b \<noteq> 0" by (rule or80_nonzero)
    show ?thesis
    proof (cases "d + 1 < 7")
      case True
      with enc Cons obtain bs' where
        e': "enc_loop p' (d + 1 + 1) (push_bit (7 - (d + 1)) ob) = (bs', s', t')"
        and bs: "bs = ?b # bs'"
        by (auto split: prod.splits)
      from str bs have g: "reader_getc (rdr_at str (length pre)) =
          Some (?b, rdr_at str (length pre + 1))"
        by (simp add: reader_getc_at)
      from True have d1': "1 \<le> d + 1" "d + 1 \<le> 6" by simp_all
      have "?t = push_bit (8 - (d + 1)) prev" using d6 by simp
      then have inv': "push_bit (d + 1) ?b = push_bit (d + 1) (drop_bit (d + 1) ob)"
        using inv_step [OF d1', of prev ob] by simp
      from str bs have str': "str = (pre @ [?b]) @ bs' @ enc_fin s' t' @ rest" by simp
      from Cons have len: "length p' < length p" by simp
      have lp: "length (pre @ [?b]) = length pre + 1" by simp
      from less.hyps [OF len s1 d1' inv' e' str', unfolded lp]
      have "\<exists>w'. read_str_loop E (rdr_at str (length pre + 1)) (Some w1) ?b (d + 1) =
              (rdr_at str (length pre + 1 + length bs' + length (enc_fin s' t')), Some w') \<and>
            writer_slack w' \<and>
            wtr_bytes w' = wtr_bytes w1 @
                (if 1 < s' \<and> t' = 0 then butlast (ob # p') else ob # p')" .
      then obtain w' where
        r: "read_str_loop E (rdr_at str (length pre + 1)) (Some w1) ?b (d + 1) =
              (rdr_at str (length pre + 1 + length bs' + length (enc_fin s' t')), Some w')"
        and sw: "writer_slack w'"
        and bw: "wtr_bytes w' = wtr_bytes w1 @
                (if 1 < s' \<and> t' = 0 then butlast (ob # p') else ob # p')"
        by blast
      have "read_str_loop E (rdr_at str (length pre)) (Some w) lb d =
            (rdr_at str (length pre + 1 + length bs' + length (enc_fin s' t')), Some w')"
        using True r
        by (subst read_str_loop.simps)
           (simp only: g option.case prod.case nz if_False Let_def ch p1, simp)
      with sw bw b1 bs Cons show ?thesis by simp
    next
      case False
      with d6 have d: "d = 6" by simp
      with enc Cons obtain bs' where
        e': "enc_loop p' 1 0 = (bs', s', t')"
        and bs: "bs = ?b # (0x80 OR ob) # bs'"
        by (auto split: prod.splits)
      from str bs have g: "reader_getc (rdr_at str (length pre)) =
          Some (?b, rdr_at str (length pre + 1))"
        by (simp add: reader_getc_at)
      from str bs have g2: "reader_getc (rdr_at str (length pre + 1)) =
          Some (0x80 OR ob, rdr_at str (length pre + 2))"
        by (simp add: reader_getc_at)
      have nz2: "0x80 OR ob \<noteq> 0" by (rule or80_nonzero)
      have ch2: "push_bit 7 ?b OR drop_bit (7 - 7) ((0x80 OR ob) AND 0x7f) = ob"
        using dec_seven [of prev ob] d by simp
      obtain w2 where p2: "writer_putc E w1 ob = Some w2"
        and s2: "writer_slack w2" and b2: "wtr_bytes w2 = wtr_bytes w1 @ [ob]"
        by (rule putc_opt [OF m s1])
      have "\<exists>w'. read_str_loop E (rdr_at str (length pre + 1)) (Some w1) ?b 7 =
              (rdr_at str (length pre + 2 + length bs' + length (enc_fin s' t')), Some w') \<and>
              writer_slack w' \<and>
              wtr_bytes w' = wtr_bytes w2 @
                (if 1 < s' \<and> t' = 0 then butlast p' else p')"
      proof (cases p')
        case Nil
        with e' have e0: "bs' = []" "s' = 1" "t' = 0" by auto
        with str bs have g3: "reader_getc (rdr_at str (length pre + 2)) =
            Some (0, rdr_at str (length pre + 3))"
          by (simp add: reader_getc_at enc_fin_def)
        have "read_str_loop E (rdr_at str (length pre + 1)) (Some w1) ?b 7 =
              (rdr_at str (length pre + 3), Some w2)"
          using g3
          by (subst read_str_loop.simps)
             (simp only: g2 option.case prod.case nz2 if_False Let_def ch2 p2, simp)
        with e0 s2 Nil show ?thesis by (simp add: enc_fin_def)
      next
        case c2: (Cons ob' p'')
        let ?f = "0x80 OR 0 OR drop_bit 1 ob' :: byte"
        from e' c2 obtain bs'' where
          e'': "enc_loop p'' (1 + 1) (push_bit (7 - 1) ob') = (bs'', s', t')"
          and bs': "bs' = ?f # bs''"
          by (auto split: prod.splits)
        have nzf: "?f \<noteq> 0" by (rule or80_nonzero)
        from str bs bs' have g3: "reader_getc (rdr_at str (length pre + 2)) =
            Some (?f, rdr_at str (length pre + 3))"
          by (simp add: reader_getc_at)
        have invf: "push_bit 1 ?f = push_bit 1 (drop_bit 1 ob')" by (rule inv_first)
        from str bs bs' have str'': "str = (pre @ [?b, 0x80 OR ob, ?f]) @ bs'' @ enc_fin s' t' @ rest"
          by simp
        from Cons c2 have len: "length p'' < length p" by simp
        have lp: "length (pre @ [?b, 0x80 OR ob, ?f]) = length pre + 3" by simp
        have "1 \<le> (1::nat)" "(1::nat) \<le> 6" by simp_all
        from less.hyps [OF len s2 this invf e'' str'', unfolded lp]
        have "\<exists>w'. read_str_loop E (rdr_at str (length pre + 3)) (Some w2) ?f 1 =
                (rdr_at str (length pre + 3 + length bs'' + length (enc_fin s' t')), Some w') \<and>
              writer_slack w' \<and>
              wtr_bytes w' = wtr_bytes w2 @
                  (if 1 < s' \<and> t' = 0 then butlast (ob' # p'') else ob' # p'')" .
        then obtain w' where
          r: "read_str_loop E (rdr_at str (length pre + 3)) (Some w2) ?f 1 =
                (rdr_at str (length pre + 3 + length bs'' + length (enc_fin s' t')), Some w')"
          and sw: "writer_slack w'"
          and bw: "wtr_bytes w' = wtr_bytes w2 @
                  (if 1 < s' \<and> t' = 0 then butlast (ob' # p'') else ob' # p'')"
          by blast
        have "read_str_loop E (rdr_at str (length pre + 1)) (Some w1) ?b 7 =
              (rdr_at str (length pre + 3 + length bs'' + length (enc_fin s' t')), Some w')"
          using g3 nzf r
          by (subst read_str_loop.simps)
             (simp only: g2 option.case prod.case nz2 if_False Let_def ch2 p2, simp)
        with sw bw bs' c2 show ?thesis by simp
      qed
      then obtain w' where
        r: "read_str_loop E (rdr_at str (length pre + 1)) (Some w1) ?b 7 =
              (rdr_at str (length pre + 2 + length bs' + length (enc_fin s' t')), Some w')"
        and sw: "writer_slack w'"
        and bw: "wtr_bytes w' = wtr_bytes w2 @ (if 1 < s' \<and> t' = 0 then butlast p' else p')"
        by blast
      from r d have r': "read_str_loop E (rdr_at str (length pre + 1)) (Some w1) ?b (d + 1) =
              (rdr_at str (length pre + 2 + length bs' + length (enc_fin s' t')), Some w')"
        by simp
      have "read_str_loop E (rdr_at str (length pre)) (Some w) lb d =
            (rdr_at str (length pre + 2 + length bs' + length (enc_fin s' t')), Some w')"
        using d6 r'
        by (subst read_str_loop.simps)
           (simp only: g option.case prod.case nz if_False Let_def ch p1, simp)
      moreover from e' have "1 < s' \<and> t' = 0 \<Longrightarrow> p' \<noteq> []" by auto
      ultimately show ?thesis using sw bw b1 b2 bs Cons by auto
    qed
  qed
qed


lemma read_str_str_bytes:
  assumes m: "\<forall>n. mem E n" and s: "s = pre @ str_bytes p @ rest"
  shows "read_str E (rdr_at s (length pre)) =
         Inr (str_decoded p, rdr_at s (length pre + length (str_bytes p)))"
proof -
  from writer_init_total [OF m, of 20] obtain w0 where i: "writer_init E 20 = Some w0"
    by auto
  from writer_init_Some [OF i] have s0: "writer_slack w0" and b0: "wtr_bytes w0 = []" by auto
  show ?thesis
  proof (cases p)
    case Nil
    then have sb: "str_bytes p = [0]" by (simp add: str_bytes_def enc_fin_def)
    with s have g: "reader_getc (rdr_at s (length pre)) = Some (0, rdr_at s (length pre + 1))"
      by (simp add: reader_getc_at)
    from writer_fini_bytes [OF m s0] b0 have "writer_fini E w0 = Some []" by simp
    with i g sb Nil show ?thesis
      by (simp add: read_str_def str_decoded_def str_lossy_def)
  next
    case (Cons ob p')
    let ?f = "0x80 OR 0 OR drop_bit 1 ob :: byte"
    obtain bs' s' t' where e': "enc_loop p' (1 + 1) (push_bit (7 - 1) ob) = (bs', s', t')"
      by (cases "enc_loop p' (1 + 1) (push_bit (7 - 1) ob)")
    with Cons have e: "enc_loop p 1 0 = (?f # bs', s', t')" by simp
    then have sb: "str_bytes p = ?f # bs' @ enc_fin s' t'" by (simp add: str_bytes_def)
    have nzf: "?f \<noteq> 0" by (rule or80_nonzero)
    from s sb have g: "reader_getc (rdr_at s (length pre)) = Some (?f, rdr_at s (length pre + 1))"
      by (simp add: reader_getc_at)
    have invf: "push_bit 1 ?f = push_bit 1 (drop_bit 1 ob)" by (rule inv_first)
    from s sb have str: "s = (pre @ [?f]) @ bs' @ enc_fin s' t' @ rest" by simp
    have lp: "length (pre @ [?f]) = length pre + 1" by simp
    have "1 \<le> (1::nat)" "(1::nat) \<le> 6" by simp_all
    from read_str_loop_enc [OF m s0 this invf e' str, unfolded lp] obtain w' where
      r: "read_str_loop E (rdr_at s (length pre + 1)) (Some w0) ?f 1 =
            (rdr_at s (length pre + 1 + length bs' + length (enc_fin s' t')), Some w')"
      and sw: "writer_slack w'"
      and bw: "wtr_bytes w' = wtr_bytes w0 @
                (if 1 < s' \<and> t' = 0 then butlast (ob # p') else ob # p')"
      by blast
    from writer_fini_bytes [OF m sw] bw b0 e Cons
    have f: "writer_fini E w' = Some (str_decoded p)"
      by (simp add: str_decoded_def str_lossy_def)
    have "read_str E (rdr_at s (length pre)) =
          Inr (str_decoded p, rdr_at s (length pre + 1 + length bs' + length (enc_fin s' t')))"
      unfolding read_str_def
      by (simp only: i option.case g prod.case nzf if_False r f)
    with sb show ?thesis by simp
  qed
qed

text \<open>
  C4 (blob stream termination), as the code has it. For every byte sequence \<open>b\<close>, what
  \<^verbatim>\<open>write_str\<close> appends after the kind tag is \<open>body @ [0]\<close>: it ends with a zero byte, no byte
  of \<open>body\<close> is zero, and every byte of \<open>body\<close> but possibly its last one (the trailer, which
  is stored without the marker bit) has bit 7 set.
\<close>

theorem write_str_terminated:
  assumes "\<forall>n. mem E n" and "writer_slack w"
  shows "\<exists>w' body. write_str E w b kind = Some w' \<and>
           wtr_bytes w' = wtr_bytes w @ tag_bytes kind @ body @ [0] \<and>
           0 \<notin> set body \<and> list_all (\<lambda>x. bit x 7) (butlast body)"
proof -
  from str_bytes_shape [of b] obtain body where
    "str_bytes b = body @ [0]" "0 \<notin> set body" "list_all (\<lambda>x. bit x 7) (butlast body)"
    by blast
  with wrote_write_str [OF assms, of kind b] show ?thesis
    by (auto simp: wrote_def)
qed

theorem write_str_terminated_witness:
  "(\<forall>n. mem (sample_env 0) n) \<and> writer_slack \<lparr>wtr_pos = 0, wtr_s = Some [0, 0, 0, 0]\<rparr> \<and>
   write_str (sample_env 0) \<lparr>wtr_pos = 0, wtr_s = Some [0, 0, 0, 0]\<rparr> [0xff, 2] 0 =
     Some \<lparr>wtr_pos = 4, wtr_s = Some [0xff, 0xc0, 0x40, 0, 0, 0, 0, 0]\<rparr> \<and>
   (\<exists>w' body. write_str (sample_env 0) \<lparr>wtr_pos = 0, wtr_s = Some [0, 0, 0, 0]\<rparr> [0xff, 2] 0
        = Some w' \<and>
      wtr_bytes w' = wtr_bytes \<lparr>wtr_pos = 0, wtr_s = Some [0, 0, 0, 0]\<rparr> @ tag_bytes 0 @
        body @ [0] \<and>
      0 \<notin> set body \<and> list_all (\<lambda>x. bit x 7) (butlast body))"
proof -
  have m: "\<forall>n. mem (sample_env 0) n" by (simp add: sample_env_def)
  have s: "writer_slack \<lparr>wtr_pos = 0, wtr_s = Some [0, 0, 0, 0]\<rparr>"
    by (simp add: writer_slack_def wtr_size_def)
  have e: "write_str (sample_env 0) \<lparr>wtr_pos = 0, wtr_s = Some [0, 0, 0, 0]\<rparr> [0xff, 2] 0 =
     Some \<lparr>wtr_pos = 4, wtr_s = Some [0xff, 0xc0, 0x40, 0, 0, 0, 0, 0]\<rparr>"
    by code_simp
  from write_str_terminated [OF m s, of "[0xff, 2]" 0] m s e show ?thesis by blast
qed

text \<open>
  The claim as stated fails for the one-byte blob \<open>01\<close>: its stream is \<open>80 40 00\<close>, and the
  byte \<open>40\<close> before the terminator has bit 7 clear.
\<close>

theorem write_str_trailer_counterexample:
  "write_str (sample_env 0) \<lparr>wtr_pos = 0, wtr_s = Some [0, 0, 0, 0]\<rparr> [1] 0 =
     Some \<lparr>wtr_pos = 3, wtr_s = Some [0x80, 0x40, 0, 0]\<rparr> \<and>
   \<not> bit (0x40 :: byte) 7"
proof -
  have "write_str (sample_env 0) \<lparr>wtr_pos = 0, wtr_s = Some [0, 0, 0, 0]\<rparr> [1] 0 =
     Some \<lparr>wtr_pos = 3, wtr_s = Some [0x80, 0x40, 0, 0]\<rparr>"
    by code_simp
  moreover have "\<not> bit (0x40 :: byte) 7" by simp
  ultimately show ?thesis by simp
qed

subsection \<open>Elements, tuples and batches: the bytes stored\<close>

lemma wrote_opt_Some [simp]: "wrote_opt w (Some bs) r = wrote w bs r"
  by (simp add: wrote_opt_def)

lemma wrote_opt_None [simp]: "wrote_opt w None r = (r = None)"
  by (simp add: wrote_opt_def)

lemma wrote_opt_bind:
  assumes "wrote w bs r"
    and "\<And>w'. writer_slack w' \<Longrightarrow> wtr_bytes w' = wtr_bytes w @ bs \<Longrightarrow> wrote_opt w' cso (f w')"
  shows "wrote_opt w (map_option ((@) bs) cso) (case r of None \<Rightarrow> None | Some w' \<Rightarrow> f w')"
proof -
  from assms(1) obtain w' where w': "r = Some w'" "writer_slack w'" "wtr_bytes w' = wtr_bytes w @ bs"
    by (rule wroteE)
  from assms(2) [OF w'(2,3)] show ?thesis
    by (cases cso) (auto simp: wrote_def w')
qed

lemma wrote_write_signed:
  assumes "\<forall>n. mem E n" and "writer_slack w"
  shows "wrote w (enc_signed K v) (write_signed K E w v)"
  by (simp add: write_signed_def enc_signed_def wrote_write_int [OF assms])

lemma wrote_write_time:
  assumes "\<forall>n. mem E n" and "writer_slack w"
  shows "wrote_opt w (enc_time K E dt) (map_option snd (write_time K E w dt))"
proof -
  have a: "wrote w (tag_bytes k @ varint v) (write_int E w v k)" for k v
    by (rule wrote_write_int [OF assms])
  show ?thesis
    using a [of "KIND_NEG_TIME K" "- time_magnitude K E dt"] a [of "KIND_TIME K" "time_magnitude K E dt"]
      assms(2)
    by (auto simp: write_time_def enc_time_def time_magnitude_def Let_def wrote_def)
qed

lemma wrote_c_encode_value:
  assumes "\<forall>n. mem E n" and "writer_slack w"
  shows "wrote_opt w (enc_value K E x) (c_encode_value K E w x)"
proof (cases x)
  case PyNone
  then show ?thesis by (simp add: wrote_putc [OF assms])
next
  case (PyInt v)
  then show ?thesis by (simp add: wrote_write_signed [OF assms])
next
  case (PyLong i)
  then show ?thesis by (simp add: wrote_write_signed [OF assms])
next
  case (PyBool b)
  have "wrote w ([KIND_BOOL K] @ [if b then 1 else 0])
     (case writer_putc E w (KIND_BOOL K) of None \<Rightarrow> None
      | Some wtr \<Rightarrow> writer_putc E wtr (if b then 1 else 0))"
    by (rule wrote_bind [OF wrote_putc [OF assms]]) (rule wrote_putc [OF assms(1)])
  with PyBool show ?thesis by simp
next
  case (PyString b)
  then show ?thesis by (simp add: wrote_write_str [OF assms])
next
  case (PyUnicode u)
  then show ?thesis by (simp add: wrote_write_str [OF assms] split: option.split)
next
  case (PyDateTime dt)
  from wrote_write_time [OF assms, of K dt] PyDateTime show ?thesis
    by (cases "write_time K E w dt") (auto simp: wrote_opt_def split: option.splits)
next
  case (PyUUID ss)
  then show ?thesis by (simp add: wrote_write_str [OF assms])
qed simp_all

lemma wrote_c_encode_key:
  assumes "\<forall>n. mem E n"
  shows "writer_slack w \<Longrightarrow> wrote_opt w (enc_key K E xs) (c_encode_key K E w xs)"
proof (induction xs arbitrary: w)
  case Nil
  then show ?case by (simp add: wrote_Some_nil)
next
  case (Cons x xs)
  show ?case
  proof (cases "enc_value K E x")
    case None
    with wrote_c_encode_value [OF assms Cons.prems, of K x] show ?thesis by simp
  next
    case (Some b)
    with wrote_c_encode_value [OF assms Cons.prems, of K x]
    have "wrote w b (c_encode_value K E w x)" by simp
    from wrote_opt_bind [OF this, of "enc_key K E xs" "\<lambda>w'. c_encode_key K E w' xs"] Cons.IH
    have "wrote_opt w (map_option ((@) b) (enc_key K E xs)) (c_encode_key K E w (x # xs))"
      by simp
    moreover have "enc_key K E (x # xs) = map_option ((@) b) (enc_key K E xs)"
      by (cases "enc_key K E xs") (simp_all add: Some)
    ultimately show ?thesis by simp
  qed
qed

lemma wrote_encode_item:
  assumes "\<forall>n. mem E n" and "writer_slack w"
  shows "wrote_opt w (enc_item K E x) (encode_item K E w x)"
  using wrote_c_encode_value [OF assms, of K x] wrote_c_encode_key [OF assms, of K]
  by (cases x) (simp_all add: enc_item_def encode_item_def)


lemma wrote_packs_loop:
  assumes "\<forall>n. mem E n"
  shows "writer_slack w \<Longrightarrow> wrote_opt w (enc_batch K E i elems) (packs_loop K E w i elems)"
proof (induction elems arbitrary: w i)
  case Nil
  then show ?case by (simp add: wrote_Some_nil)
next
  case (Cons x xs)
  let ?sep = "if i \<noteq> 0 then [KIND_SEP K] else []"
  have sep: "wrote w ?sep (if i \<noteq> 0 then writer_putc E w (KIND_SEP K) else Some w)"
    using Cons.prems by (simp add: wrote_putc [OF assms] wrote_Some_nil)
  have rest: "wrote_opt w1 (map_option (drop (length ?sep)) (enc_batch K E i (x # xs)))
      (case encode_item K E w1 x of None \<Rightarrow> None | Some w2 \<Rightarrow> packs_loop K E w2 (i + 1) xs)"
    if s1: "writer_slack w1" for w1
  proof (cases "enc_item K E x")
    case None
    with wrote_encode_item [OF assms s1, of K x] show ?thesis by simp
  next
    case (Some b)
    with wrote_encode_item [OF assms s1, of K x]
    have "wrote w1 b (encode_item K E w1 x)" by simp
    from wrote_opt_bind [OF this, of "enc_batch K E (i + 1) xs" "\<lambda>w'. packs_loop K E w' (i + 1) xs"]
      Cons.IH
    have "wrote_opt w1 (map_option ((@) b) (enc_batch K E (i + 1) xs))
       (case encode_item K E w1 x of None \<Rightarrow> None | Some w2 \<Rightarrow> packs_loop K E w2 (i + 1) xs)"
      by simp
    moreover have "map_option (drop (length ?sep)) (enc_batch K E i (x # xs)) =
        map_option ((@) b) (enc_batch K E (i + 1) xs)"
      by (cases "enc_batch K E (i + 1) xs") (simp_all add: Some)
    ultimately show ?thesis by simp
  qed
  have "wrote_opt w (map_option ((@) ?sep) (map_option (drop (length ?sep)) (enc_batch K E i (x # xs))))
     (case (if i \<noteq> 0 then writer_putc E w (KIND_SEP K) else Some w) of None \<Rightarrow> None
      | Some w1 \<Rightarrow> (case encode_item K E w1 x of None \<Rightarrow> None
          | Some w2 \<Rightarrow> packs_loop K E w2 (i + 1) xs))"
    by (rule wrote_opt_bind [OF sep]) (rule rest)
  moreover have "map_option ((@) ?sep) (map_option (drop (length ?sep)) (enc_batch K E i (x # xs))) =
      enc_batch K E i (x # xs)"
    by (simp split: option.split)
  ultimately show ?case by simp
qed

lemma packs_bytes:
  assumes "\<forall>n. mem E n"
  shows "packs K E (PyString prefix) tups = map_option ((@) prefix) (enc_packs K E tups)"
proof -
  from writer_init_total [of E 20] assms obtain w0 where w0: "writer_init E 20 = Some w0"
    by auto
  from writer_init_Some [OF w0] have s0: "writer_slack w0" "wtr_bytes w0 = []" by simp_all
  from writer_puts_total [OF assms s0(1)] obtain w1 where
    w1: "writer_puts E w0 prefix = Some w1" by blast
  from writer_puts_Some [OF w1 s0(1)] s0(2)
  have s1: "writer_slack w1" "wtr_bytes w1 = prefix" by simp_all
  let ?r = "case tups of PyList elems \<Rightarrow> packs_loop K E w1 0 elems | _ \<Rightarrow> encode_item K E w1 tups"
  have r: "wrote_opt w1 (enc_packs K E tups) ?r"
    using wrote_packs_loop [OF assms s1(1), of K 0] wrote_encode_item [OF assms s1(1), of K tups]
    by (cases tups) (simp_all add: enc_packs_def)
  have p: "packs K E (PyString prefix) tups =
      (case ?r of None \<Rightarrow> None | Some wtr \<Rightarrow> writer_fini E wtr)"
    by (simp add: packs_def w0 w1)
  show ?thesis
  proof (cases "enc_packs K E tups")
    case None
    with r p show ?thesis by simp
  next
    case (Some bs)
    with r obtain w2 where w2: "?r = Some w2" "writer_slack w2" "wtr_bytes w2 = prefix @ bs"
      by (auto simp: wrote_def s1)
    from writer_fini_bytes [OF assms w2(2)] w2 p Some show ?thesis by simp
  qed
qed

lemma uint_neg_sint:
  fixes x :: u64
  assumes "sint x < 0"
  shows "uint (- x) = - sint x"
proof -
  have "- x = word_of_int (- sint x)" by simp
  then have "uint (- x) = (- sint x) mod 2 ^ 64"
    by (simp only: uint_word_of_int) simp
  moreover have "- (2 ^ 63) \<le> sint x" using sint_ge [of x] by simp
  ultimately show ?thesis using assms by simp
qed

lemma neg_less_neg:
  fixes a b :: u64
  assumes "a <s b" and "b <s 0"
  shows "- b < - a"
proof -
  from assms have s: "sint a < sint b" "sint b < 0" by (simp_all add: word_sless_alt)
  then have "sint a < 0" by simp
  from uint_neg_sint [OF this] uint_neg_sint [OF s(2)] s show ?thesis
    by (simp add: word_less_alt)
qed

text \<open>
  C2 (order among negative integers), as the code has it. \<^verbatim>\<open>c_encode_value\<close> stores a
  negative integer \<open>v\<close> as the \<^verbatim>\<open>NEG_INTEGER\<close> tag followed by the plain varint of \<open>-v\<close>;
  nothing inverts the bytes of the varint, neither here nor in the decoder. So for negative
  \<open>a < b\<close> the magnitude of \<open>a\<close> is the larger one, and by the order of varints the encoding
  of \<open>a\<close> compares strictly greater than that of \<open>b\<close>: among negative integers the byte
  order is the reverse of the numeric order. (The allocator is taken never to fail.)
\<close>

theorem negative_integers_order_reversed:
  assumes "\<forall>n. mem E n" and "a <s b" and "b <s 0"
  shows "packs K E (PyString prefix) (PyInt a) =
           Some (prefix @ tag_bytes (KIND_NEG_INTEGER K) @ varint (- a)) \<and>
         packs K E (PyString prefix) (PyInt b) =
           Some (prefix @ tag_bytes (KIND_NEG_INTEGER K) @ varint (- b)) \<and>
         bytes_less (prefix @ tag_bytes (KIND_NEG_INTEGER K) @ varint (- b))
                    (prefix @ tag_bytes (KIND_NEG_INTEGER K) @ varint (- a))"
proof -
  from assms(2,3) have "a <s 0" by (simp add: word_sless_alt)
  with assms(3) have
    "enc_packs K E (PyInt a) = Some (tag_bytes (KIND_NEG_INTEGER K) @ varint (- a))"
    "enc_packs K E (PyInt b) = Some (tag_bytes (KIND_NEG_INTEGER K) @ varint (- b))"
    by (simp_all add: enc_packs_def enc_item_def enc_signed_def)
  moreover from neg_less_neg [OF assms(2,3)]
  have "bytes_less (varint (- b)) (varint (- a))" by (rule varint_less)
  ultimately show ?thesis
    by (simp add: packs_bytes [OF assms(1)] bytes_less_append)
qed

theorem negative_integers_order_reversed_witness:
  "(\<forall>n. mem (sample_env 0) n) \<and> (- 2 :: u64) <s - 1 \<and> (- 1 :: u64) <s 0 \<and>
   packs spec_header (sample_env 0) (PyString []) (PyInt (- 2)) = Some [40, 2] \<and>
   packs spec_header (sample_env 0) (PyString []) (PyInt (- 1)) = Some [40, 1] \<and>
   bytes_less [40, 1] [40, 2]"
proof -
  have m: "\<forall>n. mem (sample_env 0) n" by (simp add: sample_env_def)
  have lt: "(- 2 :: u64) <s - 1" "(- 1 :: u64) <s 0" by (simp_all add: word_sless_alt)
  have v: "tag_bytes (KIND_NEG_INTEGER spec_header) @ varint (- (- 2)) = [40, 2]"
    "tag_bytes (KIND_NEG_INTEGER spec_header) @ varint (- (- 1)) = [40, 1]"
    by (simp_all add: tag_bytes_def spec_header_def varint_def)
  from negative_integers_order_reversed [OF m lt, of spec_header "[]"] m lt
  show ?thesis by (simp only: v append_Nil) simp
qed

text \<open>
  The claim as the spec states it fails at \<open>a = -2\<close>, \<open>b = -1\<close>: the encoding of \<open>-2\<close> is not
  below that of \<open>-1\<close>.
\<close>

theorem negative_integers_counterexample:
  "packs spec_header (sample_env 0) (PyString []) (PyInt (- 2)) = Some [40, 2] \<and>
   packs spec_header (sample_env 0) (PyString []) (PyInt (- 1)) = Some [40, 1] \<and>
   \<not> bytes_less [40, 2] [40, 1]"
proof -
  have "packs spec_header (sample_env 0) (PyString []) (PyInt (- 2)) = Some [40, 2]"
    by code_simp
  moreover have "packs spec_header (sample_env 0) (PyString []) (PyInt (- 1)) = Some [40, 1]"
    by code_simp
  ultimately show ?thesis by simp
qed

text \<open>
  C5 (a prefix that does not match), as the code has it. \<^verbatim>\<open>py_unpack\<close> and \<^verbatim>\<open>unpacks\<close> first
  compare the lengths: an input shorter than the prefix raises \<^verbatim>\<open>ValueError\<close>. Only an input
  at least as long as the prefix is compared with it by \<^verbatim>\<open>memcmp\<close>, and a difference returns
  \<^verbatim>\<open>None\<close>, the sentinel. This holds for every input, the outputs of \<^verbatim>\<open>packs\<close> among them.
\<close>

theorem unpack_prefix_mismatch:
  assumes "packs K E (PyString p2) v = Some s" and "\<not> starts_with s p1"
  shows "py_unpack K E p1 s = (if length s < length p1 then Inl ValueError else Inr PyNone) \<and>
         unpacks K E p1 s = (if length s < length p1 then Inl ValueError else Inr PyNone)"
  using assms(2)
  by (auto simp: py_unpack_def unpacks_def Let_def memcmp_differs_def starts_with_def)

theorem unpack_prefix_mismatch_witness:
  "packs spec_header (sample_env 0) (PyString [7]) (PyInt 5) = Some [7, 60, 5] \<and>
   \<not> starts_with [7, 60, 5] [8] \<and>
   py_unpack spec_header (sample_env 0) [8] [7, 60, 5] = Inr PyNone \<and>
   unpacks spec_header (sample_env 0) [8] [7, 60, 5] = Inr PyNone"
proof -
  have p: "packs spec_header (sample_env 0) (PyString [7]) (PyInt 5) = Some [7, 60, 5]"
    by code_simp
  have n: "\<not> starts_with [7, 60, 5] [8]" by (simp add: starts_with_def)
  from unpack_prefix_mismatch [OF p n] p n show ?thesis by simp
qed

text \<open>
  The claim as the spec states it fails when the packed string is shorter than the prefix
  asked for: the empty tuple packs to the empty string under the empty prefix, and unpacking
  it with a prefix of one byte raises \<^verbatim>\<open>ValueError\<close>.
\<close>

theorem unpack_short_input_counterexample:
  "packs spec_header (sample_env 0) (PyString []) (PyTuple []) = Some [] \<and>
   \<not> starts_with [] [1] \<and>
   py_unpack spec_header (sample_env 0) [1] [] = Inl ValueError"
proof -
  have "packs spec_header (sample_env 0) (PyString []) (PyTuple []) = Some []" by code_simp
  moreover have "\<not> starts_with [] [1]" by (simp add: starts_with_def)
  moreover have "py_unpack spec_header (sample_env 0) [1] [] = Inl ValueError" by code_simp
  ultimately show ?thesis by simp
qed

text \<open>
  The offset field of a timestamp. For a datetime with an explicit offset
  \<^verbatim>\<open>get_utcoffset_secs\<close> returns quarter hours, not seconds, and \<^verbatim>\<open>write_time\<close> divides what
  it gets by \<^verbatim>\<open>UTCOFFSET_DIV\<close> once more: with the divisor 900 the field is the bias alone for
  every offset of less than 900 quarter hours.
\<close>

lemma write_time_offset_field_constant:
  assumes "UTCOFFSET_DIV K = 900" and "dt_utcoffset dt = Some offset" and "\<bar>offset\<bar> < 810000"
  shows "UTCOFFSET_SHIFT K + c_div (get_utcoffset_secs E dt) (UTCOFFSET_DIV K) = UTCOFFSET_SHIFT K"
proof -
  from assms(3) have "\<bar>offset\<bar> div 900 < 900" by simp
  moreover have "\<bar>sgn offset * (\<bar>offset\<bar> div 900)\<bar> = \<bar>offset\<bar> div 900"
    by (simp add: abs_mult sgn_if)
  ultimately show ?thesis
    by (simp add: assms(1,2) get_utcoffset_secs_def c_div_def)
qed

text \<open>
  C6 (timestamp magnitude), at two datetimes with an explicit offset. At UTC-00:15 the
  quarter-hour count is -1, which \<^verbatim>\<open>write_time\<close> takes for the error value of
  \<^verbatim>\<open>get_utcoffset_secs\<close>: it returns -1 and stores nothing, whatever the header, and \<^verbatim>\<open>packs\<close>
  (which only tests the result against 0) returns the bare prefix. At UTC+01:00, midnight of
  1 January 1970, with bias 64 and divisor 900, the magnitude stored is 64 (the bytes
  \<open>70, 64\<close>: \<^verbatim>\<open>TIME\<close> tag, varint of 64), where the formula of the claim gives
  \<open>(0 << 7) | (3600 / 900 + 64) = 68\<close>.
\<close>

theorem write_time_offset_lost:
  "write_time K E w (epoch_plus (- 900)) = Some (- 1, w) \<and>
   packs spec_header (sample_env 0) (PyString [7]) (PyDateTime (epoch_plus (- 900))) = Some [7] \<and>
   write_time spec_header (sample_env 0) \<lparr>wtr_pos = 0, wtr_s = Some [0, 0, 0, 0]\<rparr>
       (epoch_plus 3600) =
     Some (1, \<lparr>wtr_pos = 2, wtr_s = Some [70, 64, 0, 0]\<rparr>) \<and>
   packs spec_header (sample_env 0) (PyString []) (PyDateTime (epoch_plus 3600)) = Some [70, 64]"
proof -
  have "write_time K E w (epoch_plus (- 900)) = Some (- 1, w)"
    by (simp add: write_time_def get_utcoffset_secs_def epoch_plus_def c_div_def Let_def)
  moreover have
    "packs spec_header (sample_env 0) (PyString [7]) (PyDateTime (epoch_plus (- 900))) = Some [7]"
    by code_simp
  moreover have
    "write_time spec_header (sample_env 0) \<lparr>wtr_pos = 0, wtr_s = Some [0, 0, 0, 0]\<rparr>
       (epoch_plus 3600) =
     Some (1, \<lparr>wtr_pos = 2, wtr_s = Some [70, 64, 0, 0]\<rparr>)"
    by code_simp
  moreover have
    "packs spec_header (sample_env 0) (PyString []) (PyDateTime (epoch_plus 3600)) = Some [70, 64]"
    by code_simp
  ultimately show ?thesis by simp
qed

text \<open>
  C8 (offset table), at the input \<open>02 03 04\<close>: the count 2 and the deltas 3 and 4, for which
  the claim gives the offsets \<open>[0, 3, 7]\<close> and 3 bytes consumed. All three varints are single
  bytes up to 240, so \<^verbatim>\<open>read_plain_int\<close> hands back its unassigned local each time. When that
  holds 7, seven deltas are asked for and the input runs out; when it holds 2, the count
  happens to be right and both deltas come out as 2.
\<close>

theorem decode_offsets_small_values:
  "py_decode_offsets (sample_env 7) [2, 3, 4] = Inl SystemError \<and>
   py_decode_offsets (sample_env 2) [2, 3, 4] =
     Inr (PyTuple [PyList [PyInt 0, PyInt 2, PyInt 4], PyInt 3])"
proof -
  have "py_decode_offsets (sample_env 7) [2, 3, 4] = Inl SystemError" by code_simp
  moreover have "py_decode_offsets (sample_env 2) [2, 3, 4] =
     Inr (PyTuple [PyList [PyInt 0, PyInt 2, PyInt 4], PyInt 3])" by code_simp
  ultimately show ?thesis by simp
qed

subsection \<open>Elements, tuples and batches: decoding what was encoded\<close>

lemma header_okD:
  assumes "header_ok K"
  shows "KIND_NULL K \<noteq> KIND_INTEGER K" "KIND_NULL K \<noteq> KIND_NEG_INTEGER K"
    "KIND_NULL K \<noteq> KIND_BOOL K" "KIND_NULL K \<noteq> KIND_BLOB K" "KIND_NULL K \<noteq> KIND_TEXT K"
    "KIND_NULL K \<noteq> KIND_NEG_TIME K" "KIND_NULL K \<noteq> KIND_TIME K" "KIND_NULL K \<noteq> KIND_UUID K"
    "KIND_NULL K \<noteq> KIND_SEP K"
    "KIND_INTEGER K \<noteq> KIND_NEG_INTEGER K" "KIND_INTEGER K \<noteq> KIND_BOOL K"
    "KIND_INTEGER K \<noteq> KIND_BLOB K" "KIND_INTEGER K \<noteq> KIND_TEXT K"
    "KIND_INTEGER K \<noteq> KIND_NEG_TIME K" "KIND_INTEGER K \<noteq> KIND_TIME K"
    "KIND_INTEGER K \<noteq> KIND_UUID K" "KIND_INTEGER K \<noteq> KIND_SEP K"
    "KIND_NEG_INTEGER K \<noteq> KIND_BOOL K" "KIND_NEG_INTEGER K \<noteq> KIND_BLOB K"
    "KIND_NEG_INTEGER K \<noteq> KIND_TEXT K" "KIND_NEG_INTEGER K \<noteq> KIND_NEG_TIME K"
    "KIND_NEG_INTEGER K \<noteq> KIND_TIME K" "KIND_NEG_INTEGER K \<noteq> KIND_UUID K"
    "KIND_NEG_INTEGER K \<noteq> KIND_SEP K"
    "KIND_BOOL K \<noteq> KIND_BLOB K" "KIND_BOOL K \<noteq> KIND_TEXT K" "KIND_BOOL K \<noteq> KIND_NEG_TIME K"
    "KIND_BOOL K \<noteq> KIND_TIME K" "KIND_BOOL K \<noteq> KIND_UUID K" "KIND_BOOL K \<noteq> KIND_SEP K"
    "KIND_BLOB K \<noteq> KIND_TEXT K" "KIND_BLOB K \<noteq> KIND_NEG_TIME K" "KIND_BLOB K \<noteq> KIND_TIME K"
    "KIND_BLOB K \<noteq> KIND_UUID K" "KIND_BLOB K \<noteq> KIND_SEP K"
    "KIND_TEXT K \<noteq> KIND_NEG_TIME K" "KIND_TEXT K \<noteq> KIND_TIME K" "KIND_TEXT K \<noteq> KIND_UUID K"
    "KIND_TEXT K \<noteq> KIND_SEP K"
    "KIND_UUID K \<noteq> KIND_NEG_TIME K" "KIND_UUID K \<noteq> KIND_TIME K" "KIND_UUID K \<noteq> KIND_SEP K"
    "KIND_SEP K \<noteq> KIND_NEG_TIME K" "KIND_SEP K \<noteq> KIND_TIME K"
    "KIND_INTEGER K \<noteq> 0" "KIND_NEG_INTEGER K \<noteq> 0" "KIND_BLOB K \<noteq> 0"
    "KIND_TEXT K \<noteq> 0" "KIND_UUID K \<noteq> 0"
  using assms by (auto simp: header_ok_def)

lemma unpack_arg_tags:
  assumes "header_ok K"
  shows "unpack_arg K E (KIND_NULL K) rdr = Inr (Some PyNone, rdr)"
    "unpack_arg K E (KIND_INTEGER K) rdr =
       bindE (read_int E rdr False) (\<lambda>(arg, rdr). Inr (Some arg, rdr))"
    "unpack_arg K E (KIND_NEG_INTEGER K) rdr =
       bindE (read_int E rdr True) (\<lambda>(arg, rdr). Inr (Some arg, rdr))"
    "unpack_arg K E (KIND_BOOL K) rdr =
       bindE (read_plain_int E rdr) (\<lambda>(u64, rdr). Inr (Some (PyBool (u64 \<noteq> 0)), rdr))"
    "unpack_arg K E (KIND_BLOB K) rdr =
       bindE (read_str E rdr) (\<lambda>(s, rdr). Inr (Some (PyString s), rdr))"
    "unpack_arg K E (KIND_TEXT K) rdr =
       bindE (read_str E rdr) (\<lambda>(tmp, rdr).
          case utf8_decode E tmp of
            None \<Rightarrow> Inl UnicodeDecodeError
          | Some u \<Rightarrow> Inr (Some (PyUnicode u), rdr))"
    "unpack_arg K E (KIND_UUID K) rdr =
       bindE (read_str E rdr) (\<lambda>(tmp, rdr).
          case uuid_new E tmp of
            None \<Rightarrow> Inl ValueError
          | Some u \<Rightarrow> Inr (Some u, rdr))"
    "unpack_arg K E (KIND_SEP K) rdr = Inr (None, rdr)"
  using header_okD [OF assms] by (simp_all add: unpack_arg_def)

lemma unpack_arg_signed:
  assumes K: "header_ok K" and s: "s = pre @ enc_signed K v @ rest"
  shows "unpack_arg K E (hd (enc_signed K v)) (rdr_at s (Suc (length pre))) =
           Inr (Some (dec_signed E (Suc (length pre)) v),
                rdr_at s (length pre + length (enc_signed K v)))"
proof (cases "v <s 0")
  case True
  with header_okD [OF K] have e: "enc_signed K v = KIND_NEG_INTEGER K # varint (- v)"
    by (simp add: enc_signed_def tag_bytes_def)
  from s e have "s = (pre @ [KIND_NEG_INTEGER K]) @ varint (- v) @ rest" by simp
  from read_plain_int_varint [OF this, of E] True show ?thesis
    by (simp add: e unpack_arg_tags [OF K] read_int_def dec_signed_def Let_def)
next
  case False
  with header_okD [OF K] have e: "enc_signed K v = KIND_INTEGER K # varint v"
    by (simp add: enc_signed_def tag_bytes_def)
  from s e have "s = (pre @ [KIND_INTEGER K]) @ varint v @ rest" by simp
  from read_plain_int_varint [OF this, of E] False show ?thesis
    by (simp add: e unpack_arg_tags [OF K] read_int_def dec_signed_def Let_def)
qed

lemma enc_signed_hd:
  assumes "header_ok K"
  shows "enc_signed K v \<noteq> [] \<and> hd (enc_signed K v) \<noteq> KIND_SEP K"
  using header_okD [OF assms] by (simp add: enc_signed_def tag_bytes_def)

lemma unpack_arg_str:
  assumes K: "header_ok K" and m: "\<forall>n. mem E n" and s: "s = pre @ (kind # str_bytes p) @ rest"
  shows "read_str E (rdr_at s (Suc (length pre))) =
           Inr (str_decoded p, rdr_at s (length pre + length (kind # str_bytes p)))"
proof -
  from s have "s = (pre @ [kind]) @ str_bytes p @ rest" by simp
  from read_str_str_bytes [OF m this] show ?thesis by simp
qed

lemma unpack_arg_enc:
  assumes K: "header_ok K" and m: "\<forall>n. mem E n" and p: "plain x"
    and e: "enc_value K E x = Some b" and s: "s = pre @ b @ rest"
  shows "b \<noteq> [] \<and> hd b \<noteq> KIND_SEP K \<and>
         unpack_arg K E (hd b) (rdr_at s (Suc (length pre))) =
           bindE (dec_value E (Suc (length pre)) x)
             (\<lambda>y. Inr (Some y, rdr_at s (length pre + length b)))"
proof (cases x)
  case PyNone
  with e header_okD [OF K] show ?thesis by (auto simp: unpack_arg_tags [OF K])
next
  case (PyInt v)
  with e have b: "b = enc_signed K v" by simp
  from unpack_arg_signed [OF K s [unfolded b], of E] enc_signed_hd [OF K, of v] PyInt
  show ?thesis by (simp add: b)
next
  case (PyLong i)
  with e have b: "b = enc_signed K (word_of_int i)" by (simp split: if_splits)
  from unpack_arg_signed [OF K s [unfolded b], of E] enc_signed_hd [OF K, of "word_of_int i"] PyLong
  show ?thesis by (simp add: b)
next
  case (PyBool bb)
  define v :: u64 where "v = (if bb then 1 else 0)"
  have vv: "varint v = [if bb then 1 else 0]" "v \<le> 240"
    by (simp_all add: v_def varint_def)
  from e PyBool have b: "b = [KIND_BOOL K] @ varint v" by (simp add: vv)
  with s have "s = (pre @ [KIND_BOOL K]) @ varint v @ rest" by simp
  from read_plain_int_varint [OF this, of E] vv header_okD [OF K] PyBool show ?thesis
    by (simp add: b unpack_arg_tags [OF K])
next
  case (PyString bs)
  with e header_okD [OF K] have b: "b = KIND_BLOB K # str_bytes bs"
    by (simp add: tag_bytes_def)
  from unpack_arg_str [OF K m s [unfolded b]] header_okD [OF K] PyString show ?thesis
    by (simp add: b unpack_arg_tags [OF K])
next
  case (PyUnicode u)
  with e obtain utf8 where u: "utf8_encode E u = Some utf8" by (auto split: option.splits)
  with e PyUnicode header_okD [OF K] have b: "b = KIND_TEXT K # str_bytes utf8"
    by (simp add: tag_bytes_def)
  from unpack_arg_str [OF K m s [unfolded b]] header_okD [OF K] PyUnicode u show ?thesis
    by (simp add: b unpack_arg_tags [OF K] split: option.split)
next
  case (PyUUID ss)
  with e header_okD [OF K] have b: "b = KIND_UUID K # str_bytes ss"
    by (simp add: tag_bytes_def)
  from unpack_arg_str [OF K m s [unfolded b]] header_okD [OF K] PyUUID show ?thesis
    by (simp add: b unpack_arg_tags [OF K] split: option.split)
qed (use p in simp_all)

lemma unpack_enc_key:
  assumes K: "header_ok K" and m: "\<forall>n. mem E n"
  shows "list_all plain xs \<Longrightarrow> enc_key K E xs = Some b \<Longrightarrow> s = pre @ b @ rest \<Longrightarrow>
         rest = [] \<or> hd rest = KIND_SEP K \<Longrightarrow>
         unpack K E (rdr_at s (length pre)) tup =
           bindE (dec_key K E (length pre) xs)
             (\<lambda>ys. Inr (tup @ ys,
                         rdr_at s (length pre + length b + (if rest = [] then 0 else 1))))"
proof (induction xs arbitrary: b pre tup)
  case Nil
  then have b: "b = []" by simp
  show ?case
  proof (cases rest)
    case Nil
    with Nil.prems(3) b show ?thesis
      by (subst unpack.simps) simp
  next
    case (Cons r rs)
    with Nil.prems(4) have r: "r = KIND_SEP K" by simp
    with Nil.prems(3) b Cons show ?thesis
      by (subst unpack.simps) (simp add: reader_getc_at unpack_arg_tags [OF K])
  qed
next
  case (Cons x xs)
  from Cons.prems(2) obtain bx bxs where
    bx: "enc_value K E x = Some bx" and bxs: "enc_key K E xs = Some bxs" and b: "b = bx @ bxs"
    by (auto split: option.splits)
  from Cons.prems(1) have px: "plain x" and pxs: "list_all plain xs" by simp_all
  from Cons.prems(3) b have s1: "s = pre @ bx @ (bxs @ rest)" by simp
  note a = unpack_arg_enc [OF K m px bx s1]
  then obtain t bt where bt: "bx = t # bt" by (cases bx) auto
  from s1 bt have g: "reader_getc (rdr_at s (length pre)) = Some (t, rdr_at s (Suc (length pre)))"
    by (simp add: reader_getc_at)
  from a bt have ua: "unpack_arg K E t (rdr_at s (Suc (length pre))) =
      bindE (dec_value E (Suc (length pre)) x)
        (\<lambda>y. Inr (Some y, rdr_at s (length pre + length bx)))" by simp
  from s1 bt have lt: "int (length pre) < int (length s)" by simp
  show ?case
  proof (cases "dec_value E (Suc (length pre)) x")
    case (Inl err)
    with g ua lt show ?thesis
      by (subst unpack.simps) simp
  next
    case (Inr y)
    from Cons.prems(3) b have s2: "s = (pre @ bx) @ bxs @ rest" by simp
    from Cons.IH [OF pxs bxs s2 Cons.prems(4), of "tup @ [y]"]
    have ih: "unpack K E (rdr_at s (length pre + length bx)) (tup @ [y]) =
        bindE (dec_key K E (length pre + length bx) xs)
          (\<lambda>ys. Inr (tup @ y # ys,
             rdr_at s (length pre + length bx + length bxs + (if rest = [] then 0 else 1))))"
      by simp
    have "unpack K E (rdr_at s (length pre)) tup =
        unpack K E (rdr_at s (length pre + length bx)) (tup @ [y])"
      using g ua lt Inr by (subst unpack.simps) simp
    with ih show ?thesis
      by (cases "dec_key K E (length pre + length bx) xs")
         (simp_all add: Inr enc_len_def bx b)
  qed
qed

lemma sint_nonneg_uint:
  fixes v :: u64
  assumes "\<not> v <s 0"
  shows "sint v = uint v"
proof -
  have "v = word_of_int (sint v)" by simp
  then have "uint v = uint (word_of_int (sint v) :: u64)" by simp
  then have "uint v = sint v mod 2 ^ 64"
    by (simp only: uint_word_of_int) simp
  moreover have "sint v < 2 ^ 63" using sint_lt [of v] by simp
  moreover from assms have "0 \<le> sint v" by (simp add: word_sless_alt)
  ultimately show ?thesis by simp
qed

lemma dec_signed_big:
  assumes "240 < (if v <s 0 then - v else v)"
  shows "dec_signed E pos v = PyLong (sint v)"
proof (cases "v <s 0")
  case True
  then have "sint v < 0" by (simp add: word_sless_alt)
  from uint_neg_sint [OF this] assms True show ?thesis
    by (simp add: dec_signed_def Let_def not_le [symmetric])
next
  case False
  from sint_nonneg_uint [OF this] assms False show ?thesis
    by (simp add: dec_signed_def Let_def not_le [symmetric])
qed

lemma long_magnitude:
  assumes "- (2 ^ 63) \<le> i" and "i < 2 ^ 63" and "240 < \<bar>i\<bar>"
  shows "sint (word_of_int i :: u64) = i"
    and "240 < (if (word_of_int i :: u64) <s 0 then - word_of_int i else (word_of_int i :: u64))"
proof -
  show s: "sint (word_of_int i :: u64) = i"
    using assms(1,2) by (simp add: signed_of_int signed_take_bit_int_eq_self)
  show "240 < (if (word_of_int i :: u64) <s 0 then - word_of_int i else (word_of_int i :: u64))"
  proof (cases "(word_of_int i :: u64) <s 0")
    case True
    then have n: "sint (word_of_int i :: u64) < 0" by (simp add: word_sless_alt)
    from uint_neg_sint [OF n] s n assms(3) True show ?thesis
      by (simp add: word_less_alt)
  next
    case False
    then have "0 \<le> sint (word_of_int i :: u64)" by (simp add: word_sless_alt)
    with sint_nonneg_uint [OF False] s assms(3) False show ?thesis
      by (simp add: word_less_alt)
  qed
qed

lemma roundtrips_dec_value:
  assumes "roundtrips E x"
  shows "plain x \<and> (\<exists>b. enc_value K E x = Some b) \<and> dec_value E pos x = Inr (as_long x)"
proof (cases x)
  case (PyInt v)
  with assms dec_signed_big [of v E pos] show ?thesis by simp
next
  case (PyLong i)
  with assms long_magnitude [of i] dec_signed_big [of "word_of_int i" E pos] show ?thesis
    by simp
next
  case (PyUnicode u)
  with assms show ?thesis by (auto simp: str_decoded_def split: option.splits)
qed (use assms in \<open>simp_all add: str_decoded_def\<close>)

lemma roundtrips_dec_key:
  "list_all (roundtrips E) xs \<Longrightarrow>
   list_all plain xs \<and> (\<exists>b. enc_key K E xs = Some b) \<and>
   dec_key K E pos xs = Inr (map as_long xs)"
proof (induction xs arbitrary: pos)
  case Nil
  show ?case by simp
next
  case (Cons x xs)
  from Cons.prems have "roundtrips E x" and "list_all (roundtrips E) xs" by simp_all
  from roundtrips_dec_value [OF this(1), of K "Suc pos"] Cons.IH [OF this(2), of "pos + enc_len K E x"]
  show ?case by auto
qed

lemma py_unpack_match:
  "py_unpack K E prefix (prefix @ b) =
     bindE (unpack K E (rdr_at (prefix @ b) (length prefix)) []) (\<lambda>(tup, rdr). Inr (PyTuple tup))"
  by (simp add: py_unpack_def Let_def memcmp_differs_def reader_init_def rdr_at_def)

lemma unpacks_match:
  "unpacks K E prefix (prefix @ b) =
     bindE (unpacks_loop K E (rdr_at (prefix @ b) (length prefix)) []) (\<lambda>tups. Inr (PyList tups))"
  by (simp add: unpacks_def Let_def memcmp_differs_def reader_init_def rdr_at_def)

lemma py_unpack_enc_key:
  assumes K: "header_ok K" and m: "\<forall>n. mem E n" and p: "list_all plain xs"
    and e: "enc_key K E xs = Some b"
  shows "py_unpack K E prefix (prefix @ b) =
           bindE (dec_key K E (length prefix) xs) (\<lambda>ys. Inr (PyTuple ys))"
proof -
  have s: "prefix @ b = prefix @ b @ []" by simp
  from unpack_enc_key [OF K m p e s, of "[]"]
  have "unpack K E (rdr_at (prefix @ b) (length prefix)) [] =
      bindE (dec_key K E (length prefix) xs)
        (\<lambda>ys. Inr (ys, rdr_at (prefix @ b) (length prefix + length b)))" by simp
  then show ?thesis
    by (cases "dec_key K E (length prefix) xs") (simp_all add: py_unpack_match)
qed

lemma packs_starts_with:
  assumes "\<forall>n. mem E n" and "packs K E (PyString prefix) v = Some s"
  shows "starts_with s prefix"
  using assms(2) by (auto simp: packs_bytes [OF assms(1)] starts_with_def)

lemma roundtrips_value_unpack:
  assumes K: "header_ok K" and m: "\<forall>n. mem E n" and r: "roundtrips_value E v"
  shows "\<exists>b. packs K E (PyString prefix) v = Some (prefix @ b) \<and>
             py_unpack K E prefix (prefix @ b) = Inr (as_long (tuplize v))"
proof -
  define xs where "xs = (case v of PyTuple ys \<Rightarrow> ys | _ \<Rightarrow> [v])"
  from r have rx: "list_all (roundtrips E) xs"
    by (cases v) (simp_all add: roundtrips_value_def xs_def)
  have t: "tuplize v = PyTuple xs" by (cases v) (simp_all add: tuplize_def xs_def)
  from roundtrips_dec_key [OF rx, of K "length prefix"] obtain b where
    p: "list_all plain xs" and b: "enc_key K E xs = Some b"
    and d: "dec_key K E (length prefix) xs = Inr (map as_long xs)" by blast
  from r b have "enc_packs K E v = Some b"
    by (cases v) (auto simp: enc_packs_def enc_item_def xs_def roundtrips_value_def
                       split: option.splits)
  then have "packs K E (PyString prefix) v = Some (prefix @ b)"
    by (simp add: packs_bytes [OF m])
  moreover from py_unpack_enc_key [OF K m p b, of prefix] d t
  have "py_unpack K E prefix (prefix @ b) = Inr (as_long (tuplize v))" by simp
  ultimately show ?thesis by blast
qed

lemma enc_batch_trailing:
  "enc_batch K E i (ts @ [PyTuple []]) =
     map_option (\<lambda>bs. (if i \<noteq> 0 then [KIND_SEP K] else []) @ bs) (enc_trail K E ts)"
proof (induction ts arbitrary: i)
  case Nil
  show ?case by (simp add: enc_item_def)
next
  case (Cons t ts)
  show ?case
    by (simp add: Cons.IH split: option.split)
qed

lemma decodable_dec_value:
  assumes "decodable E x"
  shows "plain x \<and> (\<exists>b. enc_value K E x = Some b) \<and> (\<exists>y. dec_value E pos x = Inr y)"
  using assms by (cases x) (auto split: option.splits)

lemma decodable_dec_key:
  "list_all (decodable E) xs \<Longrightarrow>
   list_all plain xs \<and> (\<exists>b. enc_key K E xs = Some b) \<and>
   (\<exists>ys. dec_key K E pos xs = Inr ys \<and> length ys = length xs)"
proof (induction xs arbitrary: pos)
  case Nil
  show ?case by simp
next
  case (Cons x xs)
  from Cons.prems have "decodable E x" and "list_all (decodable E) xs" by simp_all
  from decodable_dec_value [OF this(1), of K "Suc pos"] Cons.IH [OF this(2), of "pos + enc_len K E x"]
  show ?case by auto
qed

lemma decodable_tupleD:
  "decodable_tuple E t \<Longrightarrow> \<exists>xs. t = PyTuple xs \<and> list_all (decodable E) xs"
  by (cases t) (simp_all add: decodable_tuple_def)

lemma enc_trail_total:
  "list_all (decodable_tuple E) ts \<Longrightarrow> \<exists>b. enc_trail K E ts = Some b"
proof (induction ts)
  case Nil
  show ?case by simp
next
  case (Cons t ts)
  from Cons.prems have "decodable_tuple E t" by simp
  from decodable_tupleD [OF this] obtain xs where t: "t = PyTuple xs" "list_all (decodable E) xs"
    by blast
  from decodable_dec_key [OF t(2), of K 0] obtain bx where "enc_key K E xs = Some bx" by blast
  with Cons t show ?case by (auto simp: enc_item_def)
qed

lemma unpacks_loop_trail:
  assumes K: "header_ok K" and m: "\<forall>n. mem E n"
  shows "list_all (decodable_tuple E) ts \<Longrightarrow> enc_trail K E ts = Some b \<Longrightarrow> s = pre @ b \<Longrightarrow>
         \<exists>tups. unpacks_loop K E (rdr_at s (length pre)) acc = Inr (acc @ tups) \<and>
                length tups = length ts"
proof (induction ts arbitrary: b pre acc)
  case Nil
  then show ?case by (subst unpacks_loop.simps) simp
next
  case (Cons t ts)
  from Cons.prems(1) have dt: "decodable_tuple E t" and dts: "list_all (decodable_tuple E) ts"
    by simp_all
  from decodable_tupleD [OF dt] obtain xs where t: "t = PyTuple xs"
    and dx: "list_all (decodable E) xs" by blast
  from decodable_dec_key [OF dx, of K "length pre"] obtain bx ys where
    p: "list_all plain xs" and bx: "enc_key K E xs = Some bx"
    and ys: "dec_key K E (length pre) xs = Inr ys" by blast
  from Cons.prems(2) t bx obtain bs where bs: "enc_trail K E ts = Some bs"
    and b: "b = bx @ KIND_SEP K # bs"
    by (auto simp: enc_item_def split: option.splits)
  from Cons.prems(3) b have s1: "s = pre @ bx @ (KIND_SEP K # bs)" by simp
  from unpack_enc_key [OF K m p bx s1, of "[]"] ys
  have u: "unpack K E (rdr_at s (length pre)) [] =
      Inr (ys, rdr_at s (length pre + length bx + 1))" by simp
  from s1 have lt: "int (length pre) < int (length s)" by simp
  from s1 have s2: "s = (pre @ bx @ [KIND_SEP K]) @ bs" by simp
  from Cons.IH [OF dts bs s2, of "acc @ [PyTuple ys]"] obtain tups where
    l: "unpacks_loop K E (rdr_at s (length pre + length bx + 1)) (acc @ [PyTuple ys]) =
          Inr ((acc @ [PyTuple ys]) @ tups)" and n: "length tups = length ts"
    by auto
  have "unpacks_loop K E (rdr_at s (length pre)) acc =
      unpacks_loop K E (rdr_at s (length pre + length bx + 1)) (acc @ [PyTuple ys])"
    using lt u by (subst unpacks_loop.simps) simp
  with l n show ?case by simp
qed

lemma unpacks_drops_trailing_empty_tuple:
  assumes K: "header_ok K" and m: "\<forall>n. mem E n" and d: "list_all (decodable_tuple E) ts"
  shows "\<exists>s tups. packs K E (PyString prefix) (PyList (ts @ [PyTuple []])) = Some s \<and>
                  unpacks K E prefix s = Inr (PyList tups) \<and> length tups = length ts"
proof -
  from enc_trail_total [OF d, of K] obtain b where b: "enc_trail K E ts = Some b" by blast
  then have "enc_packs K E (PyList (ts @ [PyTuple []])) = Some b"
    by (simp add: enc_packs_def enc_batch_trailing)
  then have p: "packs K E (PyString prefix) (PyList (ts @ [PyTuple []])) = Some (prefix @ b)"
    by (simp add: packs_bytes [OF m])
  from unpacks_loop_trail [OF K m d b refl, of prefix "[]"] obtain tups where
    "unpacks_loop K E (rdr_at (prefix @ b) (length prefix)) [] = Inr tups"
    "length tups = length ts" by auto
  then have "unpacks K E prefix (prefix @ b) = Inr (PyList tups) \<and> length tups = length ts"
    by (simp add: unpacks_match)
  with p show ?thesis by blast
qed

text \<open>
  C3 (prefix respect and round trip), as the code has it. Whatever the value, a string that
  \<^verbatim>\<open>packs\<close> returns begins with the prefix. \<^verbatim>\<open>unpack\<close> decodes one tuple: for a value that is a
  tuple, or a single element, \<^verbatim>\<open>unpack(prefix, pack(prefix, value))\<close> is \<^verbatim>\<open>tuplize(value)\<close>
  (its \<^verbatim>\<open>int\<close>s as \<^verbatim>\<open>long\<close>s of the same value) when every element is null, an integer of
  magnitude above 240, or a blob, text or UUID whose stream does not end in a zero trailer.
  (The header has distinct tags, non-zero where the writers skip a zero tag, and the
  allocator never fails.)
\<close>

theorem pack_unpack_round_trip:
  assumes "header_ok K" and "\<forall>n. mem E n" and "roundtrips_value E v"
  shows "(\<exists>s. packs K E (PyString prefix) v = Some s \<and> starts_with s prefix \<and>
              py_unpack K E prefix s = Inr (as_long (tuplize v))) \<and>
         (\<forall>u s. packs K E (PyString prefix) u = Some s \<longrightarrow> starts_with s prefix)"
proof -
  from roundtrips_value_unpack [OF assms, of prefix] obtain b where
    "packs K E (PyString prefix) v = Some (prefix @ b)"
    "py_unpack K E prefix (prefix @ b) = Inr (as_long (tuplize v))" by blast
  moreover have "starts_with (prefix @ b) prefix" by (simp add: starts_with_def)
  ultimately have "\<exists>s. packs K E (PyString prefix) v = Some s \<and> starts_with s prefix \<and>
              py_unpack K E prefix s = Inr (as_long (tuplize v))" by blast
  with packs_starts_with [OF assms(2), of K prefix] show ?thesis by blast
qed

theorem pack_unpack_round_trip_witness:
  "header_ok spec_header \<and> (\<forall>n. mem (sample_env 0) n) \<and>
   roundtrips_value (sample_env 0) (PyTuple [PyInt 1000, PyString [1], PyNone]) \<and>
   packs spec_header (sample_env 0) (PyString [7]) (PyTuple [PyInt 1000, PyString [1], PyNone]) =
     Some [7, 60, 243, 248, 80, 0x80, 0x40, 0, 20] \<and>
   starts_with [7, 60, 243, 248, 80, 0x80, 0x40, 0, 20] [7] \<and>
   py_unpack spec_header (sample_env 0) [7] [7, 60, 243, 248, 80, 0x80, 0x40, 0, 20] =
     Inr (PyTuple [PyLong 1000, PyString [1], PyNone])"
proof -
  let ?v = "PyTuple [PyInt 1000, PyString [1], PyNone]"
  have k: "header_ok spec_header" by (simp add: header_ok_def spec_header_def)
  have m: "\<forall>n. mem (sample_env 0) n" by (simp add: sample_env_def)
  have r: "roundtrips_value (sample_env 0) ?v"
    by (simp add: roundtrips_value_def str_lossy_def)
  have p: "packs spec_header (sample_env 0) (PyString [7]) ?v =
      Some [7, 60, 243, 248, 80, 0x80, 0x40, 0, 20]"
    by code_simp
  have t: "as_long (tuplize ?v) = PyTuple [PyLong 1000, PyString [1], PyNone]"
    by (simp add: tuplize_def)
  from pack_unpack_round_trip [OF k m r, of "[7]"] obtain s where
    "packs spec_header (sample_env 0) (PyString [7]) ?v = Some s" "starts_with s [7]"
    "py_unpack spec_header (sample_env 0) [7] s = Inr (as_long (tuplize ?v))" by blast
  with p t k m r show ?thesis by simp
qed

text \<open>
  The claim as the spec states it fails for a list of tuples: \<^verbatim>\<open>unpack\<close> stops at the first
  separator and returns the first tuple, while \<^verbatim>\<open>tuplize\<close> wraps the whole list in a tuple
  of one element.
\<close>

theorem unpack_list_counterexample:
  "packs spec_header (sample_env 0) (PyString [])
     (PyList [PyTuple [PyNone], PyTuple [PyNone]]) = Some [20, 10, 20] \<and>
   py_unpack spec_header (sample_env 0) [] [20, 10, 20] = Inr (PyTuple [PyNone]) \<and>
   tuplize (PyList [PyTuple [PyNone], PyTuple [PyNone]]) =
     PyTuple [PyList [PyTuple [PyNone], PyTuple [PyNone]]] \<and>
   PyTuple [PyNone] \<noteq> tuplize (PyList [PyTuple [PyNone], PyTuple [PyNone]])"
proof -
  have "packs spec_header (sample_env 0) (PyString [])
     (PyList [PyTuple [PyNone], PyTuple [PyNone]]) = Some [20, 10, 20]"
    by code_simp
  moreover have "py_unpack spec_header (sample_env 0) [] [20, 10, 20] = Inr (PyTuple [PyNone])"
    by code_simp
  ultimately show ?thesis by (simp add: tuplize_def)
qed

text \<open>
  C9 (a trailing empty tuple), at the batch of the single-element tuple holding the nil
  UUID and the empty tuple. The sixteen zero bytes of the UUID end inside a group of seven
  with a zero trailer, so the trailer byte \<^verbatim>\<open>write_str\<close> stores is taken by \<^verbatim>\<open>read_str\<close> for the
  terminator: it returns fifteen bytes, the UUID constructor rejects them, and \<^verbatim>\<open>unpacks\<close>
  raises \<^verbatim>\<open>ValueError\<close> where the claim has it return a list of one tuple. For every batch
  whose elements \<^verbatim>\<open>unpack\<close> can build again the claim holds
  (\<open>unpacks_drops_trailing_empty_tuple\<close>).
\<close>

theorem unpacks_nil_uuid_batch:
  "packs spec_header (sample_env 0) (PyString [])
     (PyList [PyTuple [PyUUID (replicate 16 0)], PyTuple []]) =
     Some (100 # replicate 18 0x80 @ [0, 10]) \<and>
   str_decoded (replicate 16 0) = replicate 15 0 \<and>
   unpacks spec_header (sample_env 0) [] (100 # replicate 18 0x80 @ [0, 10]) = Inl ValueError"
proof -
  have "packs spec_header (sample_env 0) (PyString [])
     (PyList [PyTuple [PyUUID (replicate 16 0)], PyTuple []]) =
     Some (100 # replicate 18 0x80 @ [0, 10])"
    by code_simp
  moreover have "str_decoded (replicate 16 0) = replicate 15 0"
    by code_simp
  moreover have
    "unpacks spec_header (sample_env 0) [] (100 # replicate 18 0x80 @ [0, 10]) = Inl ValueError"
    by code_simp
  ultimately show ?thesis by simp
qed

end
